theory Spec2Isabelle
  imports Main "HOL-Library.Word"
begin

unbundle bit_operations_syntax

section \<open>Data model\<close>

text \<open>
  The program of \<^verbatim>\<open>src/sim/main.c\<close> computes with C \<^verbatim>\<open>int\<close> values and hands them to
  the backend as \<^verbatim>\<open>void*\<close> handles. An \<^verbatim>\<open>int\<close> is a 32-bit word, read as two's complement
  by the comparisons; a handle is a 64-bit word, and the cast \<^verbatim>\<open>(void* )i\<close> of an
  \<^verbatim>\<open>int\<close> sign-extends it.
\<close>

type_synonym cint = "32 word"
type_synonym voidp = "64 word"

definition to_voidp :: "cint \<Rightarrow> voidp" where
  "to_voidp i = scast i"

text \<open>
  One call of an intrinsic, as a test double recording calls sees it. The call of
  \<^verbatim>\<open>__quantum__qis__read_result__body\<close> is logged with the value it returned.
\<close>

datatype call =
    Call_x voidp
  | Call_h voidp
  | Call_cz voidp voidp
  | Call_mresetz voidp voidp
  | Call_read_result voidp cint
  | Call_array_record_output "64 word" voidp
  | Call_result_record_output voidp voidp

text \<open>
  The seven QISA functions are declared in the source and implemented by the backend.
  They are taken as a parameter: a backend over a state \<open>'b\<close> of its own gives each
  declared function as a state transformer; only \<^verbatim>\<open>read_result\<close> returns a value.
\<close>

record 'b backend =
  qis_x :: "voidp \<Rightarrow> 'b \<Rightarrow> 'b"
  qis_h :: "voidp \<Rightarrow> 'b \<Rightarrow> 'b"
  qis_cz :: "voidp \<Rightarrow> voidp \<Rightarrow> 'b \<Rightarrow> 'b"
  qis_mresetz :: "voidp \<Rightarrow> voidp \<Rightarrow> 'b \<Rightarrow> 'b"
  qis_read_result :: "voidp \<Rightarrow> 'b \<Rightarrow> cint \<times> 'b"
  rt_array_record_output :: "64 word \<Rightarrow> voidp \<Rightarrow> 'b \<Rightarrow> 'b"
  rt_result_record_output :: "voidp \<Rightarrow> voidp \<Rightarrow> 'b \<Rightarrow> 'b"

text \<open>The state of a run: the calls issued so far, oldest first, and the backend's state.\<close>

record 'b run =
  trace :: "call list"
  bst :: 'b

section \<open>Calls of the intrinsics\<close>

definition quantum_qis_x_body :: "'b backend \<Rightarrow> voidp \<Rightarrow> 'b run \<Rightarrow> 'b run" where
  "quantum_qis_x_body B qubit s =
     \<lparr>trace = trace s @ [Call_x qubit], bst = qis_x B qubit (bst s)\<rparr>"

definition quantum_qis_h_body :: "'b backend \<Rightarrow> voidp \<Rightarrow> 'b run \<Rightarrow> 'b run" where
  "quantum_qis_h_body B qubit s =
     \<lparr>trace = trace s @ [Call_h qubit], bst = qis_h B qubit (bst s)\<rparr>"

definition quantum_qis_cz_body :: "'b backend \<Rightarrow> voidp \<Rightarrow> voidp \<Rightarrow> 'b run \<Rightarrow> 'b run" where
  "quantum_qis_cz_body B control target s =
     \<lparr>trace = trace s @ [Call_cz control target], bst = qis_cz B control target (bst s)\<rparr>"

definition quantum_qis_mresetz_body :: "'b backend \<Rightarrow> voidp \<Rightarrow> voidp \<Rightarrow> 'b run \<Rightarrow> 'b run" where
  "quantum_qis_mresetz_body B qubit result s =
     \<lparr>trace = trace s @ [Call_mresetz qubit result],
      bst = qis_mresetz B qubit result (bst s)\<rparr>"

definition quantum_qis_read_result_body ::
  "'b backend \<Rightarrow> voidp \<Rightarrow> 'b run \<Rightarrow> cint \<times> 'b run" where
  "quantum_qis_read_result_body B result s =
     (let (v, b) = qis_read_result B result (bst s)
      in (v, \<lparr>trace = trace s @ [Call_read_result result v], bst = b\<rparr>))"

definition quantum_rt_array_record_output ::
  "'b backend \<Rightarrow> 64 word \<Rightarrow> voidp \<Rightarrow> 'b run \<Rightarrow> 'b run" where
  "quantum_rt_array_record_output B sz label s =
     \<lparr>trace = trace s @ [Call_array_record_output sz label],
      bst = rt_array_record_output B sz label (bst s)\<rparr>"

definition quantum_rt_result_record_output ::
  "'b backend \<Rightarrow> voidp \<Rightarrow> voidp \<Rightarrow> 'b run \<Rightarrow> 'b run" where
  "quantum_rt_result_record_output B rid label s =
     \<lparr>trace = trace s @ [Call_result_record_output rid label],
      bst = rt_result_record_output B rid label (bst s)\<rparr>"

section \<open>Utility functions\<close>

definition CX :: "'b backend \<Rightarrow> cint \<Rightarrow> cint \<Rightarrow> 'b run \<Rightarrow> 'b run" where
  "CX B control target s =
     (let s1 = quantum_qis_h_body B (to_voidp target) s;
          s2 = quantum_qis_cz_body B (to_voidp control) (to_voidp target) s1
      in quantum_qis_h_body B (to_voidp target) s2)"

definition H :: "'b backend \<Rightarrow> cint \<Rightarrow> 'b run \<Rightarrow> 'b run" where
  "H B qubit s = quantum_qis_h_body B (to_voidp qubit) s"

definition MResetZ :: "'b backend \<Rightarrow> cint \<Rightarrow> cint \<Rightarrow> 'b run \<Rightarrow> cint \<times> 'b run" where
  "MResetZ B qubit result s =
     (let s1 = quantum_qis_mresetz_body B (to_voidp qubit) (to_voidp result) s
      in quantum_qis_read_result_body B (to_voidp result) s1)"

definition RecordResult :: "'b backend \<Rightarrow> cint \<Rightarrow> 'b run \<Rightarrow> 'b run" where
  "RecordResult B result s = quantum_rt_result_record_output B (to_voidp result) 0 s"

section \<open>Program functions\<close>

text \<open>
  The loop counters are \<^verbatim>\<open>int\<close>s compared as signed values. A counter below 9 can be
  incremented, and a counter that is not negative can be decremented, without
  wrapping around; the loops terminate by these two facts.
\<close>

lemmas signed_cmp = word_sless_alt word_sle_eq

lemma sint_incr: "i <s (9 :: cint) \<Longrightarrow> sint (i + 1) = sint i + 1"
  apply (simp add: word_sless_alt sint_word_ariths)
  apply (rule signed_take_bit_int_eq_self)
  using sint_range_size [of i] apply (simp_all add: word_size)
  done

lemma sint_decr: "0 \<le>s (i :: cint) \<Longrightarrow> sint (i - 1) = sint i - 1"
  apply (simp add: word_sle_eq sint_word_ariths)
  apply (rule signed_take_bit_int_eq_self)
  using sint_range_size [of i] apply (simp_all add: word_size)
  done

text \<open>\<^verbatim>\<open>for (int i = 0; i < 9; i++) H(i);\<close>, entered with the counter at \<open>i\<close>.\<close>

function make_random_state_for :: "'b backend \<Rightarrow> cint \<Rightarrow> 'b run \<Rightarrow> 'b run" where
  "make_random_state_for B i s =
     (if i <s 9 then make_random_state_for B (i + 1) (H B i s) else s)"
  by pat_completeness auto
termination
  by (relation "measure (\<lambda>(B, i, s). nat (9 - sint i))")
    (auto simp: sint_incr word_sless_alt)

declare make_random_state_for.simps [simp del]

definition make_random_state :: "'b backend \<Rightarrow> 'b run \<Rightarrow> 'b run" where
  "make_random_state B s = make_random_state_for B 0 s"

text \<open>
  \<^verbatim>\<open>for (int i = 0; i < 9; i++) result = result | (MResetZ(i, i) << i);\<close>, entered with
  the counter at \<open>i\<close> and the accumulator at \<open>result\<close>. The shift is the 32-bit shift of
  the machine (C leaves a shift that overflows a signed \<^verbatim>\<open>int\<close> undefined; a backend
  that returns 0 or 1 never gets there).
\<close>

function measure_as_int_for ::
  "'b backend \<Rightarrow> cint \<Rightarrow> cint \<Rightarrow> 'b run \<Rightarrow> cint \<times> 'b run" where
  "measure_as_int_for B i result s =
     (if i <s 9
      then (let (m, s1) = MResetZ B i i s
            in measure_as_int_for B (i + 1) (result OR push_bit (unat i) m) s1)
      else (result, s))"
  by pat_completeness auto
termination
  by (relation "measure (\<lambda>(B, i, r, s). nat (9 - sint i))")
    (auto simp: sint_incr word_sless_alt)

declare measure_as_int_for.simps [simp del]

definition measure_as_int :: "'b backend \<Rightarrow> 'b run \<Rightarrow> cint \<times> 'b run" where
  "measure_as_int B s = measure_as_int_for B 0 0 s"

text \<open>
  \<^verbatim>\<open>while (result < 500) { make_random_state(); result = measure_as_int(); }\<close>. The loop
  has no bound in the source: a run that never leaves it is the value \<open>None\<close>.
\<close>

partial_function (option) random_numbers_over_500_while ::
  "'b backend \<Rightarrow> cint \<Rightarrow> 'b run \<Rightarrow> 'b run option" where
  "random_numbers_over_500_while B result s =
     (if result <s 500
      then (let s1 = make_random_state B s;
                (r, s2) = measure_as_int B s1
            in random_numbers_over_500_while B r s2)
      else Some s)"

text \<open>\<^verbatim>\<open>for (int i = 8; i >= 0; i--) RecordResult(i);\<close>, entered with the counter at \<open>i\<close>.\<close>

function random_numbers_over_500_for :: "'b backend \<Rightarrow> cint \<Rightarrow> 'b run \<Rightarrow> 'b run" where
  "random_numbers_over_500_for B i s =
     (if 0 \<le>s i then random_numbers_over_500_for B (i - 1) (RecordResult B i s) else s)"
  by pat_completeness auto
termination
  by (relation "measure (\<lambda>(B, i, s). nat (sint i + 1))")
    (auto simp: sint_decr word_sle_eq)

declare random_numbers_over_500_for.simps [simp del]

definition random_numbers_over_500 :: "'b backend \<Rightarrow> 'b run \<Rightarrow> 'b run option" where
  "random_numbers_over_500 B s =
     (case random_numbers_over_500_while B 0 s of
        None \<Rightarrow> None
      | Some s1 \<Rightarrow> Some (random_numbers_over_500_for B 8 s1))"

text \<open>
  \<^verbatim>\<open>for (int i = 8; i >= 0; i--) { MResetZ(i, i); RecordResult(i); }\<close>, entered with the
  counter at \<open>i\<close>; the value \<^verbatim>\<open>MResetZ\<close> returns is dropped.
\<close>

function full_entangle_for :: "'b backend \<Rightarrow> cint \<Rightarrow> 'b run \<Rightarrow> 'b run" where
  "full_entangle_for B i s =
     (if 0 \<le>s i
      then (let (m, s1) = MResetZ B i i s
            in full_entangle_for B (i - 1) (RecordResult B i s1))
      else s)"
  by pat_completeness auto
termination
  by (relation "measure (\<lambda>(B, i, s). nat (sint i + 1))")
    (auto simp: sint_decr word_sle_eq)

declare full_entangle_for.simps [simp del]

definition full_entangle :: "'b backend \<Rightarrow> 'b run \<Rightarrow> 'b run" where
  "full_entangle B s =
     (let s0 = H B 0 s;
          s1 = CX B 0 1 s0;
          s2 = CX B 1 2 s1;
          s3 = CX B 2 3 s2;
          s4 = CX B 3 4 s3;
          s5 = CX B 4 5 s4;
          s6 = CX B 5 6 s5;
          s7 = CX B 6 7 s6;
          s8 = CX B 7 8 s7
      in full_entangle_for B 8 s8)"

text \<open>The entry point: \<^verbatim>\<open>full_entangle\<close> is commented out, the sampling program runs.\<close>

definition ENTRYPOINT__main :: "'b backend \<Rightarrow> 'b run \<Rightarrow> 'b run option" where
  "ENTRYPOINT__main B s = random_numbers_over_500 B s"

section \<open>Expected traces\<close>

text \<open>
  The vocabulary in which the properties of the programs are stated: the calls a step
  is expected to issue, the accumulation of measured values, and the state a run is in
  after a number of iterations of the sampling loop.
\<close>

text \<open>The nine qubit indices, in increasing order.\<close>

definition qubits :: "cint list" where
  "qubits = [0, 1, 2, 3, 4, 5, 6, 7, 8]"

text \<open>The calls of \<^verbatim>\<open>make_random_state\<close>: apply-H on each qubit, in increasing order.\<close>

definition prepare_calls :: "call list" where
  "prepare_calls = map (\<lambda>i. Call_h (to_voidp i)) qubits"

text \<open>
  The calls of \<^verbatim>\<open>measure_as_int\<close>, given the values \<open>ms\<close> that the nine reads return: for
  each qubit \<open>i\<close> in increasing order, the two calls of \<open>MResetZ(i, i)\<close>.
\<close>

definition measure_calls :: "cint list \<Rightarrow> call list" where
  "measure_calls ms =
     concat (map2 (\<lambda>i m. [Call_mresetz (to_voidp i) (to_voidp i),
                           Call_read_result (to_voidp i) m]) qubits ms)"

text \<open>
  The accumulation of the specification: starting from 0, the value number \<open>i\<close> is
  shifted left by \<open>i\<close> and OR-ed into the accumulator.
\<close>

definition accumulate :: "cint list \<Rightarrow> cint" where
  "accumulate ms = foldl (\<lambda>acc (i, m). acc OR push_bit i m) 0 (zip [0..<length ms] ms)"

text \<open>The calls of the record loop: the slots 8 down to 0, each with the null label.\<close>

definition record_calls :: "call list" where
  "record_calls = map (\<lambda>i. Call_result_record_output (to_voidp i) 0) (rev qubits)"

text \<open>
  One iteration of the sampling loop: its calls, the iteration itself (the body of the
  \<^verbatim>\<open>while\<close>), and \<open>k\<close> iterations in a row from a pair of accumulator and state.
\<close>

definition attempt_calls :: "cint list \<Rightarrow> call list" where
  "attempt_calls ms = prepare_calls @ measure_calls ms"

definition attempt :: "'b backend \<Rightarrow> 'b run \<Rightarrow> cint \<times> 'b run" where
  "attempt B s = measure_as_int B (make_random_state B s)"

fun attempts :: "'b backend \<Rightarrow> nat \<Rightarrow> cint \<times> 'b run \<Rightarrow> cint \<times> 'b run" where
  "attempts B 0 x = x"
| "attempts B (Suc k) x = attempts B k (attempt B (snd x))"

text \<open>The values that the read-bit calls of a trace returned, in order.\<close>

fun returned :: "call list \<Rightarrow> cint list" where
  "returned [] = []"
| "returned (Call_read_result r v # cs) = v # returned cs"
| "returned (c # cs) = returned cs"

text \<open>The calls of one controlled-NOT, and of the gates of the chain program.\<close>

definition cx_calls :: "cint \<Rightarrow> cint \<Rightarrow> call list" where
  "cx_calls c t = [Call_h (to_voidp t), Call_cz (to_voidp c) (to_voidp t), Call_h (to_voidp t)]"

definition entangle_calls :: "call list" where
  "entangle_calls =
     Call_h (to_voidp 0) # concat (map (\<lambda>i. cx_calls i (i + 1)) [0, 1, 2, 3, 4, 5, 6, 7])"

text \<open>
  The calls of the measure-and-record loop of the chain program, given the values the
  reads return: for each qubit from 8 down to 0, the two calls of \<open>MResetZ(i, i)\<close> and
  then the record of slot \<open>i\<close>; and the same calls without the reads.
\<close>

definition measure_record_calls :: "cint list \<Rightarrow> call list" where
  "measure_record_calls ms =
     concat (map2 (\<lambda>i m. [Call_mresetz (to_voidp i) (to_voidp i),
                           Call_read_result (to_voidp i) m,
                           Call_result_record_output (to_voidp i) 0])
               [8, 7, 6, 5, 4, 3, 2, 1, 0] ms)"

definition measure_record_pairs :: "call list" where
  "measure_record_pairs =
     concat (map (\<lambda>i. [Call_mresetz (to_voidp i) (to_voidp i),
                        Call_result_record_output (to_voidp i) 0])
               [8, 7, 6, 5, 4, 3, 2, 1, 0])"

text \<open>The calls issued between two states of one run.\<close>

definition issued :: "'b run \<Rightarrow> 'b run \<Rightarrow> call list" where
  "issued s s' = drop (length (trace s)) (trace s')"

text \<open>The seven operations of the interface, and the operation a call is a call of.\<close>

datatype intrinsic =
    Apply_X
  | Apply_H
  | Apply_Controlled_Phase
  | Measure_And_Reset
  | Read_Bit
  | Record_Array_Output
  | Record_Scalar_Output

fun kind :: "call \<Rightarrow> intrinsic" where
  "kind (Call_x q) = Apply_X"
| "kind (Call_h q) = Apply_H"
| "kind (Call_cz c t) = Apply_Controlled_Phase"
| "kind (Call_mresetz q r) = Measure_And_Reset"
| "kind (Call_read_result r v) = Read_Bit"
| "kind (Call_array_record_output n l) = Record_Array_Output"
| "kind (Call_result_record_output r l) = Record_Scalar_Output"

text \<open>The record calls and the measure-and-reset calls of a trace.\<close>

definition is_record :: "call \<Rightarrow> bool" where
  "is_record c = (kind c = Record_Scalar_Output \<or> kind c = Record_Array_Output)"

definition is_measure :: "call \<Rightarrow> bool" where
  "is_measure c = (kind c = Measure_And_Reset)"

section \<open>The backend's contract\<close>

text \<open>
  An entry of the output stream: the announcement of an array of outputs (size, label),
  or one recorded value (slot, label, the value of the slot when it was recorded).
\<close>

datatype entry =
    Array_entry "64 word" voidp
  | Result_entry voidp voidp cint

fun entry_slot :: "entry \<Rightarrow> voidp" where
  "entry_slot (Array_entry n l) = l"
| "entry_slot (Result_entry r l v) = r"

fun entry_value :: "entry \<Rightarrow> cint" where
  "entry_value (Array_entry n l) = 0"
| "entry_value (Result_entry r l v) = v"

text \<open>
  Modelled from the spec: the state of the backend, which is not part of the source.
  It holds the classical slots and the output stream of section 4.3 of the
  specification, and the outcomes of the measurements, which are the backend's own:
  \<open>outcomes b n\<close> is the value that measurement number \<open>n\<close> of the run stores, and
  \<open>measured b\<close> counts the measurements made so far.
\<close>

record ideal =
  outcomes :: "nat \<Rightarrow> cint"
  measured :: nat
  slots :: "voidp \<Rightarrow> cint"
  stream :: "entry list"

text \<open>
  Modelled from the spec: the seven intrinsics, which the source declares and the
  backend implements. By the classical contract of section 4.3: the gates return
  nothing (their effect on the quantum state is not modelled); measure-and-reset stores
  exactly one classical value into the named slot; read-bit returns the value most
  recently stored in the slot and has no side effect; each record primitive appends
  one entry to the single output stream.
\<close>

definition ideal_backend :: "ideal backend" where
  "ideal_backend =
     \<lparr>qis_x = (\<lambda>q b. b),
      qis_h = (\<lambda>q b. b),
      qis_cz = (\<lambda>c t b. b),
      qis_mresetz = (\<lambda>q r b.
         b\<lparr>slots := (slots b)(r := outcomes b (measured b)), measured := measured b + 1\<rparr>),
      qis_read_result = (\<lambda>r b. (slots b r, b)),
      rt_array_record_output = (\<lambda>n l b. b\<lparr>stream := stream b @ [Array_entry n l]\<rparr>),
      rt_result_record_output = (\<lambda>r l b.
         b\<lparr>stream := stream b @ [Result_entry r l (slots b r)]\<rparr>)\<rparr>"

text \<open>A run that starts on the contract's backend with the given outcomes.\<close>

definition fresh :: "(nat \<Rightarrow> cint) \<Rightarrow> ideal run" where
  "fresh f = \<lparr>trace = [], bst = \<lparr>outcomes = f, measured = 0, slots = (\<lambda>r. 0), stream = []\<rparr>\<rparr>"

text \<open>The backend whose every measurement gives 1.\<close>

definition all_ones :: "nat \<Rightarrow> cint" where
  "all_ones n = 1"

text \<open>
  The scripted backend of the two-attempt scenario: the first nine measurements give
  the bits of 256 and the next nine the bits of 500, qubit 0 first.
\<close>

definition rejected_then_500 :: "nat \<Rightarrow> cint" where
  "rejected_then_500 n =
     (if n < 18 then [0, 0, 0, 0, 0, 0, 0, 0, 1, 0, 0, 1, 0, 1, 1, 1, 1, 1] ! n else 0)"

text \<open>The backend whose first \<open>9 * n\<close> measurements give 0 and all later ones 1.\<close>

definition zeros_then_ones :: "nat \<Rightarrow> nat \<Rightarrow> cint" where
  "zeros_then_ones n i = (if i < 9 * n then 0 else 1)"

text \<open>The entries recorded between two states of one run.\<close>

definition recorded :: "ideal run \<Rightarrow> ideal run \<Rightarrow> entry list" where
  "recorded s s' = drop (length (stream (bst s))) (stream (bst s'))"

text \<open>The nine outcomes of the measurements \<open>n\<close>, ..., \<open>n + 8\<close> after the state \<open>b\<close>.\<close>

definition window :: "ideal \<Rightarrow> nat \<Rightarrow> cint list" where
  "window b n = map (\<lambda>i. outcomes b (measured b + n + i)) [0, 1, 2, 3, 4, 5, 6, 7, 8]"

text \<open>The slots after the values \<open>ms\<close> have been stored for the qubits 0, 1, ... in turn.\<close>

definition store_all :: "(voidp \<Rightarrow> cint) \<Rightarrow> cint list \<Rightarrow> voidp \<Rightarrow> cint" where
  "store_all f ms = foldl (\<lambda>g (i, m). g(to_voidp i := m)) f (zip qubits ms)"

text \<open>A list of bits, most significant first, read as an integer.\<close>

definition decode :: "cint list \<Rightarrow> int" where
  "decode vs = foldl (\<lambda>a v. 2 * a + uint v) 0 vs"

text \<open>Every value of the list is 0 or 1.\<close>

definition bits :: "cint list \<Rightarrow> bool" where
  "bits ms = list_all (\<lambda>m. m = 0 \<or> m = 1) ms"

text \<open>
  A call that an execution of the entry routine issues: a call issued within the first
  \<open>k\<close> iterations of the sampling loop, when the loop runs that many (every earlier
  accumulator was below 500), or any call of an execution that returns.
\<close>

definition main_issues :: "'b backend \<Rightarrow> 'b run \<Rightarrow> call \<Rightarrow> bool" where
  "main_issues B s c =
     ((\<exists>k. (\<forall>j<k. fst (attempts B j (0, s)) <s 500) \<and>
           c \<in> set (issued s (snd (attempts B k (0, s))))) \<or>
      (\<exists>s'. ENTRYPOINT__main B s = Some s' \<and> c \<in> set (issued s s')))"

text \<open>A second backend, with no state at all: every read returns 1.\<close>

definition always_one :: "unit backend" where
  "always_one =
     \<lparr>qis_x = (\<lambda>q b. b), qis_h = (\<lambda>q b. b), qis_cz = (\<lambda>c t b. b),
      qis_mresetz = (\<lambda>q r b. b), qis_read_result = (\<lambda>r b. (1, b)),
      rt_array_record_output = (\<lambda>n l b. b), rt_result_record_output = (\<lambda>r l b. b)\<rparr>"

section \<open>Calls of the utility functions and of the loops\<close>

lemma H_trace: "trace (H B q s) = trace s @ [Call_h (to_voidp q)]"
  by (simp add: H_def quantum_qis_h_body_def)

lemma RecordResult_trace:
  "trace (RecordResult B r s) = trace s @ [Call_result_record_output (to_voidp r) 0]"
  by (simp add: RecordResult_def quantum_rt_result_record_output_def)

lemma MResetZ_trace:
  "MResetZ B q r s = (m, s') \<Longrightarrow>
   trace s' = trace s @ [Call_mresetz (to_voidp q) (to_voidp r), Call_read_result (to_voidp r) m]"
  by (auto simp: MResetZ_def quantum_qis_mresetz_body_def quantum_qis_read_result_body_def
      Let_def split: prod.splits)

lemma make_random_state_unroll:
  "make_random_state B s =
     H B 8 (H B 7 (H B 6 (H B 5 (H B 4 (H B 3 (H B 2 (H B 1 (H B 0 s))))))))"
  by (simp add: make_random_state_def make_random_state_for.simps signed_cmp)

lemma make_random_state_trace: "trace (make_random_state B s) = trace s @ prepare_calls"
  by (simp add: make_random_state_unroll H_trace prepare_calls_def qubits_def)

lemma random_numbers_over_500_for_unroll:
  "random_numbers_over_500_for B 8 s =
     RecordResult B 0 (RecordResult B 1 (RecordResult B 2 (RecordResult B 3 (RecordResult B 4
       (RecordResult B 5 (RecordResult B 6 (RecordResult B 7 (RecordResult B 8 s))))))))"
  by (simp add: random_numbers_over_500_for.simps signed_cmp)

lemma random_numbers_over_500_for_trace:
  "trace (random_numbers_over_500_for B 8 s) = trace s @ record_calls"
  by (simp add: random_numbers_over_500_for_unroll RecordResult_trace record_calls_def qubits_def)

lemma measure_as_int_sem:
  "\<exists>ms. length ms = 9 \<and> fst (measure_as_int B s) = accumulate ms \<and>
        trace (snd (measure_as_int B s)) = trace s @ measure_calls ms"
proof -
  obtain m0 s0 where e0: "MResetZ B 0 0 s = (m0, s0)" by (cases "MResetZ B 0 0 s")
  obtain m1 s1 where e1: "MResetZ B 1 1 s0 = (m1, s1)" by (cases "MResetZ B 1 1 s0")
  obtain m2 s2 where e2: "MResetZ B 2 2 s1 = (m2, s2)" by (cases "MResetZ B 2 2 s1")
  obtain m3 s3 where e3: "MResetZ B 3 3 s2 = (m3, s3)" by (cases "MResetZ B 3 3 s2")
  obtain m4 s4 where e4: "MResetZ B 4 4 s3 = (m4, s4)" by (cases "MResetZ B 4 4 s3")
  obtain m5 s5 where e5: "MResetZ B 5 5 s4 = (m5, s5)" by (cases "MResetZ B 5 5 s4")
  obtain m6 s6 where e6: "MResetZ B 6 6 s5 = (m6, s6)" by (cases "MResetZ B 6 6 s5")
  obtain m7 s7 where e7: "MResetZ B 7 7 s6 = (m7, s7)" by (cases "MResetZ B 7 7 s6")
  obtain m8 s8 where e8: "MResetZ B 8 8 s7 = (m8, s8)" by (cases "MResetZ B 8 8 s7")
  note es = e0 e1 e2 e3 e4 e5 e6 e7 e8
  have run: "measure_as_int B s = (accumulate [m0, m1, m2, m3, m4, m5, m6, m7, m8], s8)"
    by (simp add: measure_as_int_def measure_as_int_for.simps signed_cmp es accumulate_def upt_rec push_bit_eq_mult)
  have tr: "trace s8 = trace s @ measure_calls [m0, m1, m2, m3, m4, m5, m6, m7, m8]"
    by (simp add: es [THEN MResetZ_trace] measure_calls_def qubits_def)
  show ?thesis
    by (rule exI [of _ "[m0, m1, m2, m3, m4, m5, m6, m7, m8]"]) (simp add: run tr)
qed

section \<open>The sampling loop\<close>

lemma while_accepted: "\<not> r <s 500 \<Longrightarrow> random_numbers_over_500_while B r s = Some s"
  by (subst random_numbers_over_500_while.simps) simp

lemma while_rejected:
  "r <s 500 \<Longrightarrow> random_numbers_over_500_while B r s =
     random_numbers_over_500_while B (fst (attempt B s)) (snd (attempt B s))"
  by (subst random_numbers_over_500_while.simps) (simp add: split_beta Let_def attempt_def)

lemma while_skip:
  "(\<forall>j<k. fst (attempts B j (r, s)) <s 500) \<Longrightarrow>
   random_numbers_over_500_while B r s =
     random_numbers_over_500_while B (fst (attempts B k (r, s))) (snd (attempts B k (r, s)))"
proof (induction k arbitrary: r s)
  case 0
  then show ?case by simp
next
  case (Suc k)
  from Suc.prems [rule_format, of 0] have r: "r <s 500" by simp
  obtain r1 s1 where a1: "attempt B s = (r1, s1)" by (cases "attempt B s")
  have "\<forall>j<k. fst (attempts B j (r1, s1)) <s 500"
  proof (intro allI impI)
    fix j assume "j < k"
    then have "fst (attempts B (Suc j) (r, s)) <s 500" using Suc.prems [rule_format, of "Suc j"] by simp
    then show "fst (attempts B j (r1, s1)) <s 500" using a1 by simp
  qed
  from Suc.IH [OF this] show ?case
    using a1 by (simp add: while_rejected [OF r])
qed

lemma while_Some:
  assumes run: "random_numbers_over_500_while B r s = Some s'"
  shows "\<exists>k. (\<forall>j<k. fst (attempts B j (r, s)) <s 500) \<and>
       \<not> fst (attempts B k (r, s)) <s 500 \<and> s' = snd (attempts B k (r, s))"
proof (rule random_numbers_over_500_while.raw_induct
    [where P = "\<lambda>B r s s'. \<exists>k. (\<forall>j<k. fst (attempts B j (r, s)) <s 500) \<and>
       \<not> fst (attempts B k (r, s)) <s 500 \<and> s' = snd (attempts B k (r, s))", OF _ run])
  fix while :: "'a backend \<Rightarrow> cint \<Rightarrow> 'a run \<Rightarrow> 'a run option"
    and B :: "'a backend" and r :: cint and s s' :: "'a run"
  assume IH: "\<And>B r s s'. while B r s = Some s' \<Longrightarrow>
      \<exists>k. (\<forall>j<k. fst (attempts B j (r, s)) <s 500) \<and>
       \<not> fst (attempts B k (r, s)) <s 500 \<and> s' = snd (attempts B k (r, s))"
    and body: "(if r <s 500
        then let s1 = make_random_state B s; (r, s2) = measure_as_int B s1 in while B r s2
        else Some s) = Some s'"
  show "\<exists>k. (\<forall>j<k. fst (attempts B j (r, s)) <s 500) \<and>
       \<not> fst (attempts B k (r, s)) <s 500 \<and> s' = snd (attempts B k (r, s))"
  proof (cases "r <s 500")
    case False
    with body have "s' = s" by simp
    with False show ?thesis by (intro exI [of _ 0]) simp
  next
    case True
    obtain r1 s1 where a1: "attempt B s = (r1, s1)"
      by (cases "attempt B s")
    from body True have "while B (fst (attempt B s)) (snd (attempt B s)) = Some s'"
      by (simp only: if_True Let_def split_beta attempt_def)
    then have "while B r1 s1 = Some s'" by (simp only: a1 fst_conv snd_conv)
    from IH [OF this] obtain k where kk: "(\<forall>j<k. fst (attempts B j (r1, s1)) <s 500) \<and>
      \<not> fst (attempts B k (r1, s1)) <s 500 \<and> s' = snd (attempts B k (r1, s1))" ..
    then have k: "\<forall>j<k. fst (attempts B j (r1, s1)) <s 500"
      "\<not> fst (attempts B k (r1, s1)) <s 500" "s' = snd (attempts B k (r1, s1))" by simp_all
    have "\<forall>j<Suc k. fst (attempts B j (r, s)) <s 500"
    proof (intro allI impI)
      fix j assume j: "j < Suc k"
      show "fst (attempts B j (r, s)) <s 500"
      proof (cases j)
        case 0
        then show ?thesis using True by simp
      next
        case (Suc i)
        then show ?thesis using j k(1) [rule_format, of i] a1 by simp
      qed
    qed
    moreover have "\<not> fst (attempts B (Suc k) (r, s)) <s 500" using k(2) a1 by simp
    moreover have "s' = snd (attempts B (Suc k) (r, s))" using k(3) a1 by simp
    ultimately show ?thesis by (intro exI [of _ "Suc k"]) (simp only: simp_thms)
  qed
qed

lemma while_first_accept:
  assumes "\<forall>j<k. fst (attempts B j (r, s)) <s 500" and "\<not> fst (attempts B k (r, s)) <s 500"
  shows "random_numbers_over_500_while B r s = Some (snd (attempts B k (r, s)))"
  using while_skip [OF assms(1)] while_accepted [OF assms(2)] by simp

lemma issued_append: "trace s' = trace s @ cs \<Longrightarrow> issued s s' = cs"
  by (simp add: issued_def)

lemma attempt_sem:
  "\<exists>ms. length ms = 9 \<and> fst (attempt B s) = accumulate ms \<and>
        trace (snd (attempt B s)) = trace s @ attempt_calls ms"
proof -
  obtain ms where ms: "length ms = 9"
    "fst (measure_as_int B (make_random_state B s)) = accumulate ms"
    "trace (snd (measure_as_int B (make_random_state B s))) =
       trace (make_random_state B s) @ measure_calls ms"
    using measure_as_int_sem [of B "make_random_state B s"] by auto
  show ?thesis
    by (rule exI [of _ ms])
      (simp add: ms attempt_def make_random_state_trace attempt_calls_def)
qed

lemma attempts_snoc: "attempts B (Suc k) x = (attempt B (snd (attempts B k x)))"
  by (induction k arbitrary: x) simp_all

lemma attempts_sem:
  "\<exists>mss. length mss = k \<and> (\<forall>ms\<in>set mss. length ms = 9) \<and>
         trace (snd (attempts B k (r, s))) = trace s @ concat (map attempt_calls mss) \<and>
         (\<forall>j<k. fst (attempts B (Suc j) (r, s)) = accumulate (mss ! j))"
proof (induction k)
  case 0
  show ?case by simp
next
  case (Suc k)
  then obtain mss where mss: "length mss = k" "\<forall>ms\<in>set mss. length ms = 9"
    "trace (snd (attempts B k (r, s))) = trace s @ concat (map attempt_calls mss)"
    "\<forall>j<k. fst (attempts B (Suc j) (r, s)) = accumulate (mss ! j)" by auto
  obtain ms where ms: "length ms = 9"
    "fst (attempt B (snd (attempts B k (r, s)))) = accumulate ms"
    "trace (snd (attempt B (snd (attempts B k (r, s))))) =
       trace (snd (attempts B k (r, s))) @ attempt_calls ms"
    using attempt_sem [of B "snd (attempts B k (r, s))"] by auto
  have acc: "\<forall>j<Suc k. fst (attempts B (Suc j) (r, s)) = accumulate ((mss @ [ms]) ! j)"
  proof (intro allI impI)
    fix j assume j: "j < Suc k"
    show "fst (attempts B (Suc j) (r, s)) = accumulate ((mss @ [ms]) ! j)"
    proof (cases "j < k")
      case True
      then show ?thesis using mss(1) mss(4) [rule_format, of j] by (simp only: nth_append if_True)
    next
      case False
      with j have "j = k" by simp
      moreover have "(mss @ [ms]) ! k = ms" using mss(1) by (simp add: nth_append)
      ultimately show ?thesis using ms(2) by (simp add: attempts_snoc del: attempts.simps)
    qed
  qed
  show ?case
    apply (rule exI [of _ "mss @ [ms]"])
    apply (intro conjI)
    subgoal using mss(1) by simp
    subgoal using mss(2) ms(1) by simp
    subgoal by (simp only: attempts_snoc ms(3) mss(3)) simp
    subgoal by (rule acc)
    done
qed

lemma not_sless_iff: "(\<not> a <s b) = (b \<le>s a)"
  by (auto simp: signed_cmp)

lemma run_Some:
  assumes "random_numbers_over_500 B s = Some s'"
  shows "\<exists>k. 0 < k \<and> (\<forall>j<k. fst (attempts B j (0, s)) <s 500) \<and>
       500 \<le>s fst (attempts B k (0, s)) \<and>
       s' = random_numbers_over_500_for B 8 (snd (attempts B k (0, s)))"
proof -
  from assms obtain s1 where s1: "random_numbers_over_500_while B 0 s = Some s1"
    and s': "s' = random_numbers_over_500_for B 8 s1"
    by (auto simp: random_numbers_over_500_def split: option.splits)
  from while_Some [OF s1] obtain k where k: "\<forall>j<k. fst (attempts B j (0, s)) <s 500"
    "\<not> fst (attempts B k (0, s)) <s 500" "s1 = snd (attempts B k (0, s))" by auto
  have "k \<noteq> 0"
  proof
    assume "k = 0"
    with k(2) show False by (simp add: signed_cmp)
  qed
  with k s' show ?thesis
    by (intro exI [of _ k]) (simp add: not_sless_iff)
qed

lemma run_first_accept:
  assumes "\<forall>j<k. fst (attempts B j (0, s)) <s 500" and "500 \<le>s fst (attempts B k (0, s))"
  shows "random_numbers_over_500 B s =
    Some (random_numbers_over_500_for B 8 (snd (attempts B k (0, s))))"
  using while_first_accept [OF assms(1)] assms(2)
  by (simp add: random_numbers_over_500_def not_sless_iff)

lemma run_terminates_iff:
  "(random_numbers_over_500 B s \<noteq> None) = (\<exists>k. 500 \<le>s fst (attempts B k (0, s)))"
proof
  assume "random_numbers_over_500 B s \<noteq> None"
  then obtain s' where "random_numbers_over_500 B s = Some s'" by auto
  from run_Some [OF this] show "\<exists>k. 500 \<le>s fst (attempts B k (0, s))" by auto
next
  assume "\<exists>k. 500 \<le>s fst (attempts B k (0, s))"
  then obtain k where k: "500 \<le>s fst (attempts B k (0, s))"
    and least: "\<forall>j<k. \<not> 500 \<le>s fst (attempts B j (0, s))"
    using exists_least_iff [of "\<lambda>k. 500 \<le>s fst (attempts B k (0, s))"] by auto
  from least have "\<forall>j<k. fst (attempts B j (0, s)) <s 500"
    by (simp add: not_sless_iff [symmetric])
  from run_first_accept [OF this k] show "random_numbers_over_500 B s \<noteq> None" by simp
qed

section \<open>Bits and their accumulation\<close>

lemma int_or_exp:
  fixes x :: int
  assumes "0 \<le> x" "x < 2 ^ k"
  shows "x OR 2 ^ k = x + 2 ^ k"
proof -
  have "\<not> bit x k" using assms by (simp add: bit_iff_odd)
  then have "\<And>n. \<not> bit x n \<or> \<not> bit ((2::int) ^ k) n" by (auto simp: bit_exp_iff)
  from disjunctive_add [OF this] show ?thesis by simp
qed

lemma uint_or_bit:
  fixes a m :: cint
  assumes a: "uint a < 2 ^ k" and m: "m = 0 \<or> m = 1" and k: "k < 32"
  shows "uint (a OR push_bit k m) = uint a + 2 ^ k * uint m"
proof (cases "m = 0")
  case True
  then show ?thesis by simp
next
  case False
  with m have m1: "m = 1" by simp
  have "take_bit 32 ((2::int) ^ k) = 2 ^ k" using k by simp
  moreover have "uint (word_of_int (2 ^ k) :: cint) = take_bit 32 (2 ^ k)"
    by (simp only: uint_word_of_int_eq) simp
  ultimately have "uint (push_bit k (1::cint)) = 2 ^ k"
    by (simp add: word_of_int_2p)
  then have "uint (a OR push_bit k m) = uint a OR 2 ^ k" by (simp add: uint_or m1)
  also have "\<dots> = uint a + 2 ^ k" by (rule int_or_exp) (simp_all add: a)
  finally show ?thesis by (simp add: m1)
qed

lemma decode_snoc: "decode (vs @ [v]) = 2 * decode vs + uint v"
  by (simp add: decode_def)

lemma uint_bit_le: "m = 0 \<or> m = 1 \<Longrightarrow> uint (m :: cint) \<le> 1"
  by auto

lemma accumulate_from:
  "uint a < 2 ^ k \<Longrightarrow> bits ms \<Longrightarrow> k + length ms \<le> 32 \<Longrightarrow>
   uint (foldl (\<lambda>acc (i, m). acc OR push_bit i m) a (zip [k..<k + length ms] ms)) =
     uint a + 2 ^ k * decode (rev ms)"
proof (induction ms arbitrary: a k)
  case Nil
  then show ?case by (simp add: decode_def)
next
  case (Cons m ms)
  from Cons.prems have m: "m = 0 \<or> m = 1" and ms: "bits ms" and k: "k < 32"
    by (simp_all add: bits_def)
  have step: "uint (a OR push_bit k m) = uint a + 2 ^ k * uint m"
    by (rule uint_or_bit [OF Cons.prems(1) m k])
  have "uint a + 2 ^ k * uint m < 2 ^ k + 2 ^ k * 1"
    using Cons.prems(1) uint_bit_le [OF m]
    by (intro add_less_le_mono mult_left_mono) simp_all
  then have bound: "uint (a OR push_bit k m) < 2 ^ Suc k" using step by simp
  have zip: "zip [k..<k + length (m # ms)] (m # ms) = (k, m) # zip [Suc k..<Suc k + length ms] ms"
    by (simp add: upt_conv_Cons del: upt_Suc)
  have "uint (foldl (\<lambda>acc (i, m). acc OR push_bit i m) a (zip [k..<k + length (m # ms)] (m # ms))) =
      uint (a OR push_bit k m) + 2 ^ Suc k * decode (rev ms)"
    unfolding zip using Cons.IH [OF bound ms] Cons.prems(3) by simp
  then show ?case by (simp add: step decode_snoc algebra_simps)
qed

lemma uint_accumulate:
  "bits ms \<Longrightarrow> length ms \<le> 32 \<Longrightarrow> uint (accumulate ms) = decode (rev ms)"
  using accumulate_from [of 0 0 ms] by (simp add: accumulate_def)

lemma decode_bound: "bits vs \<Longrightarrow> 0 \<le> decode vs \<and> decode vs < 2 ^ length vs"
proof (induction vs rule: rev_induct)
  case Nil
  then show ?case by (simp add: decode_def)
next
  case (snoc v vs)
  then have v: "v = 0 \<or> v = 1" and vs: "bits vs" by (simp_all add: bits_def)
  from snoc.IH [OF vs] uint_bit_le [OF v] show ?case
    by (simp add: decode_snoc)
qed

lemma accumulate_signed:
  assumes "bits ms" "length ms = 9"
  shows "sint (accumulate ms) = decode (rev ms)" "0 \<le> decode (rev ms)" "decode (rev ms) \<le> 511"
proof -
  have u: "uint (accumulate ms) = decode (rev ms)" using assms by (simp add: uint_accumulate)
  have "bits (rev ms)" using assms(1) by (simp add: bits_def)
  from decode_bound [OF this] assms(2)
  show b: "0 \<le> decode (rev ms)" "decode (rev ms) \<le> 511" by simp_all
  show "sint (accumulate ms) = decode (rev ms)"
    using u b by (simp add: sint_uint signed_take_bit_int_eq_self)
qed

section \<open>Runs on the backend of the contract\<close>

lemma ideal_H: "H ideal_backend q s = \<lparr>trace = trace s @ [Call_h (to_voidp q)], bst = bst s\<rparr>"
  by (simp add: H_def quantum_qis_h_body_def ideal_backend_def)

lemma ideal_MResetZ:
  "MResetZ ideal_backend q r s =
     (outcomes (bst s) (measured (bst s)),
      \<lparr>trace = trace s @ [Call_mresetz (to_voidp q) (to_voidp r),
                          Call_read_result (to_voidp r) (outcomes (bst s) (measured (bst s)))],
       bst = (bst s)\<lparr>slots := (slots (bst s))(to_voidp r := outcomes (bst s) (measured (bst s))),
                     measured := measured (bst s) + 1\<rparr>\<rparr>)"
  by (simp add: MResetZ_def quantum_qis_mresetz_body_def quantum_qis_read_result_body_def
      ideal_backend_def)

lemma ideal_RecordResult:
  "RecordResult ideal_backend r s =
     \<lparr>trace = trace s @ [Call_result_record_output (to_voidp r) 0],
      bst = (bst s)\<lparr>stream := stream (bst s) @
              [Result_entry (to_voidp r) 0 (slots (bst s) (to_voidp r))]\<rparr>\<rparr>"
  by (simp add: RecordResult_def quantum_rt_result_record_output_def ideal_backend_def)

lemma ideal_make_random_state:
  "make_random_state ideal_backend s = \<lparr>trace = trace s @ prepare_calls, bst = bst s\<rparr>"
  by (simp add: make_random_state_unroll ideal_H prepare_calls_def qubits_def)

lemma ideal_measure_as_int:
  "measure_as_int ideal_backend s =
     (accumulate (window (bst s) 0),
      \<lparr>trace = trace s @ measure_calls (window (bst s) 0),
       bst = (bst s)\<lparr>slots := store_all (slots (bst s)) (window (bst s) 0),
                     measured := measured (bst s) + 9\<rparr>\<rparr>)"
  apply (simp add: measure_as_int_def measure_as_int_for.simps signed_cmp ideal_MResetZ
      window_def accumulate_def upt_rec push_bit_eq_mult measure_calls_def qubits_def
      store_all_def)
  apply (simp add: eval_nat_numeral)
  done

lemma ideal_attempt:
  "attempt ideal_backend s =
     (accumulate (window (bst s) 0),
      \<lparr>trace = trace s @ attempt_calls (window (bst s) 0),
       bst = (bst s)\<lparr>slots := store_all (slots (bst s)) (window (bst s) 0),
                     measured := measured (bst s) + 9\<rparr>\<rparr>)"
  by (simp add: attempt_def ideal_make_random_state ideal_measure_as_int attempt_calls_def)

lemma ideal_for:
  "random_numbers_over_500_for ideal_backend 8 s =
     \<lparr>trace = trace s @ record_calls,
      bst = (bst s)\<lparr>stream := stream (bst s) @
         map (\<lambda>i. Result_entry (to_voidp i) 0 (slots (bst s) (to_voidp i))) (rev qubits)\<rparr>\<rparr>"
  by (simp add: random_numbers_over_500_for_unroll ideal_RecordResult record_calls_def qubits_def)

lemma length_9:
  "length ms = 9 \<Longrightarrow> \<exists>m0 m1 m2 m3 m4 m5 m6 m7 m8. ms = [m0, m1, m2, m3, m4, m5, m6, m7, m8]"
  by (auto simp: eval_nat_numeral length_Suc_conv)

lemma store_all_window:
  assumes "length ms = 9"
  shows "map (\<lambda>i. store_all f ms (to_voidp i)) qubits = ms"
proof -
  from length_9 [OF assms] obtain m0 m1 m2 m3 m4 m5 m6 m7 m8
    where "ms = [m0, m1, m2, m3, m4, m5, m6, m7, m8]" by blast
  then show ?thesis by (simp add: store_all_def qubits_def to_voidp_def)
qed

lemma returned_measure_calls: 
  assumes "length ms = 9"
  shows "returned (measure_calls ms) = ms"
proof -
  from length_9 [OF assms] obtain m0 m1 m2 m3 m4 m5 m6 m7 m8
    where "ms = [m0, m1, m2, m3, m4, m5, m6, m7, m8]" by blast
  then show ?thesis by (simp add: measure_calls_def qubits_def)
qed

lemma returned_append: "returned (xs @ ys) = returned xs @ returned ys"
  by (induction xs rule: returned.induct) simp_all

lemma returned_prepare_calls: "returned prepare_calls = []"
  by (simp add: prepare_calls_def qubits_def)

lemma returned_attempt_calls: "length ms = 9 \<Longrightarrow> returned (attempt_calls ms) = ms"
  by (simp add: attempt_calls_def returned_append returned_prepare_calls returned_measure_calls)

lemma length_window: "length (window b n) = 9"
  by (simp add: window_def)

lemma window_shift:
  "outcomes b' = outcomes b \<Longrightarrow> measured b' = measured b + n \<Longrightarrow> window b' m = window b (n + m)"
  by (simp add: window_def add.assoc)

lemma ideal_attempts_state:
  "outcomes (bst (snd (attempts ideal_backend k (r, s)))) = outcomes (bst s) \<and>
   measured (bst (snd (attempts ideal_backend k (r, s)))) = measured (bst s) + 9 * k \<and>
   stream (bst (snd (attempts ideal_backend k (r, s)))) = stream (bst s) \<and>
   trace (snd (attempts ideal_backend k (r, s))) =
     trace s @ concat (map (\<lambda>j. attempt_calls (window (bst s) (9 * j))) [0..<k])"
proof (induction k)
  case 0
  show ?case by simp
next
  case (Suc k)
  let ?sk = "snd (attempts ideal_backend k (r, s))"
  from Suc have w: "window (bst ?sk) 0 = window (bst s) (9 * k)"
    using window_shift [of "bst ?sk" "bst s" "9 * k" 0] by simp
  show ?case
    using Suc by (simp add: attempts_snoc ideal_attempt w del: attempts.simps)
qed

lemma ideal_attempts_result:
  "fst (attempts ideal_backend (Suc k) (r, s)) = accumulate (window (bst s) (9 * k))"
proof -
  let ?sk = "snd (attempts ideal_backend k (r, s))"
  have "window (bst ?sk) 0 = window (bst s) (9 * k)"
    using ideal_attempts_state [of k r s] window_shift [of "bst ?sk" "bst s" "9 * k" 0] by simp
  then show ?thesis by (simp add: attempts_snoc ideal_attempt del: attempts.simps)
qed

lemma ideal_attempts_slots:
  "map (\<lambda>i. slots (bst (snd (attempts ideal_backend (Suc k) (r, s)))) (to_voidp i)) qubits =
     window (bst s) (9 * k)"
proof -
  let ?sk = "snd (attempts ideal_backend k (r, s))"
  have "window (bst ?sk) 0 = window (bst s) (9 * k)"
    using ideal_attempts_state [of k r s] window_shift [of "bst ?sk" "bst s" "9 * k" 0] by simp
  then show ?thesis
    by (simp add: attempts_snoc ideal_attempt store_all_window length_window del: attempts.simps)
qed

lemma map_Result_entry:
  "map (\<lambda>i. Result_entry (to_voidp i) 0 (g i)) xs =
     map2 (\<lambda>i v. Result_entry (to_voidp i) 0 v) xs (map g xs)"
  by (induction xs) simp_all

lemma ideal_run:
  assumes rej: "\<forall>j<k. accumulate (window (bst s) (9 * j)) <s 500"
    and acc: "500 \<le>s accumulate (window (bst s) (9 * k))"
  shows "\<exists>s'. random_numbers_over_500 ideal_backend s = Some s' \<and>
    trace s' = trace s @ concat (map (\<lambda>j. attempt_calls (window (bst s) (9 * j))) [0..<Suc k])
                 @ record_calls \<and>
    recorded s s' = map2 (\<lambda>i v. Result_entry (to_voidp i) 0 v) (rev qubits)
                      (rev (window (bst s) (9 * k)))"
proof -
  let ?s1 = "snd (attempts ideal_backend (Suc k) (0, s))"
  let ?s' = "random_numbers_over_500_for ideal_backend 8 ?s1"
  have "\<forall>j<Suc k. fst (attempts ideal_backend j (0, s)) <s 500"
  proof (intro allI impI)
    fix j assume j: "j < Suc k"
    show "fst (attempts ideal_backend j (0, s)) <s 500"
    proof (cases j)
      case 0
      then show ?thesis by (simp add: signed_cmp)
    next
      case (Suc i)
      with j rej show ?thesis by (simp add: ideal_attempts_result del: attempts.simps)
    qed
  qed
  moreover have "500 \<le>s fst (attempts ideal_backend (Suc k) (0, s))"
    using acc by (simp only: ideal_attempts_result)
  ultimately have run: "random_numbers_over_500 ideal_backend s = Some ?s'"
    by (rule run_first_accept)
  have tr: "trace ?s' = trace s @
      concat (map (\<lambda>j. attempt_calls (window (bst s) (9 * j))) [0..<Suc k]) @ record_calls"
    using ideal_attempts_state [of "Suc k" 0 s]
    by (simp add: random_numbers_over_500_for_trace del: attempts.simps)
  have "recorded s ?s' =
      map (\<lambda>i. Result_entry (to_voidp i) 0 (slots (bst ?s1) (to_voidp i))) (rev qubits)"
    using ideal_attempts_state [of "Suc k" 0 s]
    by (simp add: recorded_def ideal_for del: attempts.simps)
  also have "\<dots> = map2 (\<lambda>i v. Result_entry (to_voidp i) 0 v) (rev qubits)
      (rev (map (\<lambda>i. slots (bst ?s1) (to_voidp i)) qubits))"
    by (simp only: map_Result_entry rev_map)
  finally have rec: "recorded s ?s' = map2 (\<lambda>i v. Result_entry (to_voidp i) 0 v) (rev qubits)
      (rev (window (bst s) (9 * k)))"
    by (simp only: ideal_attempts_slots)
  from run tr rec show ?thesis by blast
qed

lemma ideal_run_Some:
  assumes run: "random_numbers_over_500 ideal_backend s = Some s'"
  shows "\<exists>n. (\<forall>j<n. accumulate (window (bst s) (9 * j)) <s 500) \<and>
    500 \<le>s accumulate (window (bst s) (9 * n)) \<and>
    issued s s' =
      concat (map attempt_calls (map (\<lambda>j. window (bst s) (9 * j)) [0..<Suc n])) @ record_calls \<and>
    recorded s s' = map2 (\<lambda>i v. Result_entry (to_voidp i) 0 v) (rev qubits)
                      (rev (window (bst s) (9 * n)))"
proof -
  from run_Some [OF run] obtain k where k: "0 < k"
    "\<forall>j<k. fst (attempts ideal_backend j (0, s)) <s 500"
    "500 \<le>s fst (attempts ideal_backend k (0, s))" by blast
  from k(1) obtain n where n: "k = Suc n" by (cases k) simp_all
  have rej: "\<forall>j<n. accumulate (window (bst s) (9 * j)) <s 500"
  proof (intro allI impI)
    fix j assume "j < n"
    then have "fst (attempts ideal_backend (Suc j) (0, s)) <s 500" using k(2) n by blast
    then show "accumulate (window (bst s) (9 * j)) <s 500" by (simp only: ideal_attempts_result)
  qed
  have acc: "500 \<le>s accumulate (window (bst s) (9 * n))"
    using k(3) n by (simp only: ideal_attempts_result)
  from ideal_run [OF rej acc] run
  have tr: "trace s' = trace s @
      concat (map (\<lambda>j. attempt_calls (window (bst s) (9 * j))) [0..<Suc n]) @ record_calls"
    and rec: "recorded s s' = map2 (\<lambda>i v. Result_entry (to_voidp i) 0 v) (rev qubits)
      (rev (window (bst s) (9 * n)))" by auto
  have "issued s s' =
      concat (map attempt_calls (map (\<lambda>j. window (bst s) (9 * j)) [0..<Suc n])) @ record_calls"
    using issued_append [OF tr] by (simp only: map_map comp_def)
  with rej acc rec show ?thesis by blast
qed

lemma recorded_values:
  "length vs = 9 \<Longrightarrow>
   map entry_value (map2 (\<lambda>i v. Result_entry (to_voidp i) 0 v) (rev qubits) vs) = vs"
  by (drule length_9) (auto simp: qubits_def)

section \<open>The controlled-NOT decomposition\<close>

text \<open>
  C3. For every pair of integers \<open>(c, t)\<close>, on every backend and from every state,
  a call \<open>CX(c, t)\<close> adds to the trace exactly three calls, in this order:
  apply-H on \<open>t\<close>, apply-controlled-phase on \<open>(c, t)\<close>, apply-H on \<open>t\<close>.
\<close>

theorem CX_trace:
  "trace (CX B c t s) =
     trace s @ [Call_h (to_voidp t), Call_cz (to_voidp c) (to_voidp t), Call_h (to_voidp t)]"
  by (simp add: CX_def quantum_qis_h_body_def quantum_qis_cz_body_def)

section \<open>The recorded value of the sampling program\<close>

lemma bits_window: "\<forall>n. outcomes b n = 0 \<or> outcomes b n = 1 \<Longrightarrow> bits (window b n)"
  by (simp add: bits_def window_def)

text \<open>
  C1. On a backend that keeps the contract (read-bit returns the value last stored in
  the slot) and whose measurements give only 0 or 1, every terminating run of
  \<^verbatim>\<open>random_numbers_over_500\<close> records exactly nine entries, for the slots 8, 7, ..., 0
  in this order, and the recorded values, read as bits with slot 8 the most significant
  and slot 0 the least, decode to an integer between 500 and 511.
\<close>

theorem random_numbers_over_500_records_accepted_value:
  assumes outs: "\<forall>n. outcomes (bst s) n = 0 \<or> outcomes (bst s) n = 1"
    and run: "random_numbers_over_500 ideal_backend s = Some s'"
  shows "recorded s s' =
           map2 (\<lambda>i v. Result_entry (to_voidp i) 0 v) [8, 7, 6, 5, 4, 3, 2, 1, 0]
             (map entry_value (recorded s s')) \<and>
         length (recorded s s') = 9 \<and>
         bits (map entry_value (recorded s s')) \<and>
         500 \<le> decode (map entry_value (recorded s s')) \<and>
         decode (map entry_value (recorded s s')) \<le> 511"
proof -
  from run_Some [OF run] obtain k where k: "0 < k"
    "\<forall>j<k. fst (attempts ideal_backend j (0, s)) <s 500"
    "500 \<le>s fst (attempts ideal_backend k (0, s))" by blast
  from k(1) obtain n where n: "k = Suc n" by (cases k) simp_all
  let ?w = "window (bst s) (9 * n)"
  have rej: "\<forall>j<n. accumulate (window (bst s) (9 * j)) <s 500"
  proof (intro allI impI)
    fix j assume "j < n"
    then have "fst (attempts ideal_backend (Suc j) (0, s)) <s 500" using k(2) n by blast
    then show "accumulate (window (bst s) (9 * j)) <s 500" by (simp only: ideal_attempts_result)
  qed
  have acc: "500 \<le>s accumulate ?w" using k(3) n by (simp only: ideal_attempts_result)
  from ideal_run [OF rej acc] run
  have rec: "recorded s s' = map2 (\<lambda>i v. Result_entry (to_voidp i) 0 v) (rev qubits) (rev ?w)"
    by auto
  have len: "length (rev ?w) = 9" by (simp add: length_window)
  have vals: "map entry_value (recorded s s') = rev ?w"
    by (simp only: rec recorded_values [OF len])
  have b: "bits ?w" by (rule bits_window [OF outs])
  have lw: "length ?w = 9" by (rule length_window)
  from accumulate_signed [OF b lw] acc
  have dec: "500 \<le> decode (rev ?w)" "decode (rev ?w) \<le> 511" by (simp_all add: signed_cmp)
  have rb: "bits (rev ?w)" using b by (simp add: bits_def)
  have rec': "recorded s s' = map2 (\<lambda>i v. Result_entry (to_voidp i) 0 v)
      [8, 7, 6, 5, 4, 3, 2, 1, 0] (rev ?w)" by (simp add: rec qubits_def)
  have lr: "length (recorded s s') = 9" using len by (simp add: rec qubits_def)
  show ?thesis unfolding vals using rec' lr rb dec by (intro conjI)
qed

text \<open>The run in which every measurement gives 1: the first attempt measures 511.\<close>

lemma window_all_ones: "window (bst (fresh all_ones)) n = [1, 1, 1, 1, 1, 1, 1, 1, 1]"
  by (simp add: window_def fresh_def all_ones_def)

lemma accumulate_all_ones: "accumulate [1, 1, 1, 1, 1, 1, 1, 1, 1] = 511"
  by (simp add: accumulate_def upt_rec push_bit_eq_mult)

lemma run_all_ones:
  "\<exists>s'. random_numbers_over_500 ideal_backend (fresh all_ones) = Some s' \<and>
     trace s' = attempt_calls [1, 1, 1, 1, 1, 1, 1, 1, 1] @ record_calls \<and>
     recorded (fresh all_ones) s' =
       map2 (\<lambda>i v. Result_entry (to_voidp i) 0 v) (rev qubits) [1, 1, 1, 1, 1, 1, 1, 1, 1]"
proof -
  have "\<forall>j<(0::nat). accumulate (window (bst (fresh all_ones)) (9 * j)) <s 500" by simp
  moreover have "500 \<le>s accumulate (window (bst (fresh all_ones)) (9 * 0))"
    by (simp add: window_all_ones accumulate_all_ones signed_cmp)
  ultimately show ?thesis
    using ideal_run [of 0 "fresh all_ones"]
    by (simp add: window_all_ones) (simp add: fresh_def)
qed

text \<open>
  The theorem at the all-ones run: the run returns, records the slots 8 down to 0 with
  the value 1 each, and the recorded value is within the bounds.
\<close>

theorem random_numbers_over_500_records_accepted_value_witness:
  "\<exists>s'. random_numbers_over_500 ideal_backend (fresh all_ones) = Some s' \<and>
     map entry_slot (recorded (fresh all_ones) s') = [8, 7, 6, 5, 4, 3, 2, 1, 0] \<and>
     map entry_value (recorded (fresh all_ones) s') = [1, 1, 1, 1, 1, 1, 1, 1, 1] \<and>
     500 \<le> decode (map entry_value (recorded (fresh all_ones) s')) \<and>
     decode (map entry_value (recorded (fresh all_ones) s')) \<le> 511"
proof -
  from run_all_ones obtain s' where
    run: "random_numbers_over_500 ideal_backend (fresh all_ones) = Some s'" and
    rec: "recorded (fresh all_ones) s' =
       map2 (\<lambda>i v. Result_entry (to_voidp i) 0 v) (rev qubits) [1, 1, 1, 1, 1, 1, 1, 1, 1]"
    by blast
  have outs: "\<forall>n. outcomes (bst (fresh all_ones)) n = 0 \<or> outcomes (bst (fresh all_ones)) n = 1"
    by (simp add: fresh_def all_ones_def)
  have sl: "map entry_slot (recorded (fresh all_ones) s') = [8, 7, 6, 5, 4, 3, 2, 1, 0]"
    by (simp add: rec qubits_def to_voidp_def)
  have va: "map entry_value (recorded (fresh all_ones) s') = [1, 1, 1, 1, 1, 1, 1, 1, 1]"
    by (simp add: rec qubits_def)
  from random_numbers_over_500_records_accepted_value [OF outs run]
  have "500 \<le> decode (map entry_value (recorded (fresh all_ones) s'))"
    "decode (map entry_value (recorded (fresh all_ones) s')) \<le> 511" by simp_all
  with run sl va show ?thesis by (intro exI [of _ s'] conjI)
qed

section \<open>The measurement step\<close>

text \<open>
  C4. A call of \<^verbatim>\<open>measure_as_int\<close> issues, for the qubits 0 to 8 in increasing order,
  the calls of \<open>MResetZ(i, i)\<close> (measure-and-reset of qubit \<open>i\<close> into slot \<open>i\<close>, then
  read-bit of slot \<open>i\<close>) and nothing else; it returns the accumulation of the nine
  returned values \<open>ms\<close>, each shifted left by its index and OR-ed into an accumulator
  that starts at 0; and if every returned value is 0 or 1 the result lies in [0, 511].
\<close>

theorem measure_as_int_accumulates:
  assumes run: "measure_as_int B s = (result, s')" and ms: "ms = returned (issued s s')"
  shows "length ms = 9 \<and> trace s' = trace s @ measure_calls ms \<and> result = accumulate ms \<and>
         (bits ms \<longrightarrow> 0 \<le>s result \<and> result \<le>s 511)"
proof -
  from measure_as_int_sem [of B s] run obtain ms0 where ms0: "length ms0 = 9"
    "result = accumulate ms0" "trace s' = trace s @ measure_calls ms0" by auto
  have "ms = ms0" by (simp add: ms issued_append [OF ms0(3)] returned_measure_calls [OF ms0(1)])
  moreover have "bits ms0 \<longrightarrow> 0 \<le>s result \<and> result \<le>s 511"
  proof
    assume "bits ms0"
    from accumulate_signed [OF this ms0(1)] show "0 \<le>s result \<and> result \<le>s 511"
      by (simp add: ms0(2) signed_cmp)
  qed
  ultimately show ?thesis using ms0 by simp
qed

text \<open>
  The theorem at the all-ones backend: the nine reads return 1, the result is 511, and
  the bounds follow from the theorem.
\<close>

theorem measure_as_int_accumulates_witness:
  "returned (issued (fresh all_ones) (snd (measure_as_int ideal_backend (fresh all_ones)))) =
     [1, 1, 1, 1, 1, 1, 1, 1, 1] \<and>
   fst (measure_as_int ideal_backend (fresh all_ones)) = 511 \<and>
   0 \<le>s fst (measure_as_int ideal_backend (fresh all_ones)) \<and>
   fst (measure_as_int ideal_backend (fresh all_ones)) \<le>s 511"
proof -
  let ?s = "fresh all_ones"
  let ?r = "measure_as_int ideal_backend ?s"
  have tr: "trace (snd ?r) = trace ?s @ measure_calls [1, 1, 1, 1, 1, 1, 1, 1, 1]"
    by (simp add: ideal_measure_as_int window_all_ones)
  have ms: "returned (issued ?s (snd ?r)) = [1, 1, 1, 1, 1, 1, 1, 1, 1]"
    by (simp add: issued_append [OF tr] returned_measure_calls)
  have val: "fst ?r = 511"
    by (simp add: ideal_measure_as_int window_all_ones accumulate_all_ones)
  have b: "bits (returned (issued ?s (snd ?r)))" by (simp add: ms bits_def)
  have "length (returned (issued ?s (snd ?r))) = 9 \<and>
      trace (snd ?r) = trace ?s @ measure_calls (returned (issued ?s (snd ?r))) \<and>
      fst ?r = accumulate (returned (issued ?s (snd ?r))) \<and>
      (bits (returned (issued ?s (snd ?r))) \<longrightarrow> 0 \<le>s fst ?r \<and> fst ?r \<le>s 511)"
    by (rule measure_as_int_accumulates) simp_all
  then have "bits (returned (issued ?s (snd ?r))) \<longrightarrow> 0 \<le>s fst ?r \<and> fst ?r \<le>s 511"
    by (elim conjE)
  with b have "0 \<le>s fst ?r \<and> fst ?r \<le>s 511" by (rule rev_mp)
  with ms val show ?thesis by (intro conjI) (elim conjE, assumption)+
qed

section \<open>The two-attempt scenario\<close>

lemma measures_attempt_calls:
  assumes "length ms = 9"
  shows "length (filter is_measure (attempt_calls ms)) = 9"
proof -
  from length_9 [OF assms] obtain m0 m1 m2 m3 m4 m5 m6 m7 m8
    where "ms = [m0, m1, m2, m3, m4, m5, m6, m7, m8]" by blast
  then show ?thesis
    by (simp add: attempt_calls_def prepare_calls_def measure_calls_def qubits_def is_measure_def)
qed

lemma measures_record_calls: "filter is_measure record_calls = []"
  by (simp add: record_calls_def qubits_def is_measure_def)

text \<open>
  C7. On a backend of the contract whose outcomes make the accumulator 256 on the first
  attempt and 500 on the second, the run terminates after exactly two iterations of
  the sampling loop followed by the nine records; each attempt issues nine
  measure-and-reset calls, 18 in all; and the recorded values are the values read in
  the second attempt, for the slots 8 down to 0.
\<close>

theorem rejected_then_accepted:
  assumes first: "fst (attempts ideal_backend 1 (0, s)) = 256"
    and second: "fst (attempts ideal_backend 2 (0, s)) = 500"
  shows "\<exists>s'. random_numbers_over_500 ideal_backend s = Some s' \<and>
     s' = random_numbers_over_500_for ideal_backend 8 (snd (attempts ideal_backend 2 (0, s))) \<and>
     trace s' = trace s @ attempt_calls (window (bst s) 0) @ attempt_calls (window (bst s) 9)
                  @ record_calls \<and>
     length (filter is_measure (attempt_calls (window (bst s) 0))) = 9 \<and>
     length (filter is_measure (attempt_calls (window (bst s) 9))) = 9 \<and>
     length (filter is_measure (issued s s')) = 18 \<and>
     returned (issued (snd (attempts ideal_backend 1 (0, s)))
                      (snd (attempts ideal_backend 2 (0, s)))) = window (bst s) 9 \<and>
     recorded s s' = map2 (\<lambda>i v. Result_entry (to_voidp i) 0 v) [8, 7, 6, 5, 4, 3, 2, 1, 0]
                       (rev (window (bst s) 9))"
proof -
  have a1: "accumulate (window (bst s) 0) = 256"
    using first ideal_attempts_result [of 0 0 s] by simp
  have a2: "accumulate (window (bst s) 9) = 500"
    using second ideal_attempts_result [of 1 0 s] by (simp add: numeral_2_eq_2)
  have rej: "\<forall>j<1. accumulate (window (bst s) (9 * j)) <s 500" by (simp add: a1 signed_cmp)
  have acc: "500 \<le>s accumulate (window (bst s) (9 * 1))" by (simp add: a2 signed_cmp)
  from ideal_run [OF rej acc] obtain s' where
    run: "random_numbers_over_500 ideal_backend s = Some s'" and
    tr: "trace s' = trace s @ attempt_calls (window (bst s) 0) @ attempt_calls (window (bst s) 9)
           @ record_calls" and
    rec: "recorded s s' = map2 (\<lambda>i v. Result_entry (to_voidp i) 0 v) [8, 7, 6, 5, 4, 3, 2, 1, 0]
           (rev (window (bst s) 9))"
    by (auto simp: upt_rec qubits_def)
  have "\<forall>j<2. fst (attempts ideal_backend j (0, s)) <s 500"
  proof (intro allI impI)
    fix j :: nat assume "j < 2"
    then have "j = 0 \<or> j = 1" by auto
    then show "fst (attempts ideal_backend j (0, s)) <s 500"
      using first by (auto simp: signed_cmp)
  qed
  moreover have "500 \<le>s fst (attempts ideal_backend 2 (0, s))" by (simp add: second signed_cmp)
  ultimately have "random_numbers_over_500 ideal_backend s =
      Some (random_numbers_over_500_for ideal_backend 8 (snd (attempts ideal_backend 2 (0, s))))"
    by (rule run_first_accept)
  with run have two: "s' = random_numbers_over_500_for ideal_backend 8
      (snd (attempts ideal_backend 2 (0, s)))" by simp
  have m1: "length (filter is_measure (attempt_calls (window (bst s) 0))) = 9"
    and m2: "length (filter is_measure (attempt_calls (window (bst s) 9))) = 9"
    by (simp_all add: measures_attempt_calls length_window)
  have m: "length (filter is_measure (issued s s')) = 18"
    by (simp add: issued_append [OF tr] m1 m2 measures_record_calls)
  have t1: "trace (snd (attempts ideal_backend 1 (0, s))) =
      trace s @ attempt_calls (window (bst s) 0)"
    using ideal_attempts_state [of 1 0 s] by simp
  have "trace (snd (attempts ideal_backend 2 (0, s))) =
      trace s @ attempt_calls (window (bst s) 0) @ attempt_calls (window (bst s) 9)"
    using ideal_attempts_state [of 2 0 s] by (simp add: upt_rec del: attempts.simps)
  then have t2: "trace (snd (attempts ideal_backend 2 (0, s))) =
      trace (snd (attempts ideal_backend 1 (0, s))) @ attempt_calls (window (bst s) 9)"
    by (simp only: t1 append_assoc)
  have ret: "returned (issued (snd (attempts ideal_backend 1 (0, s)))
      (snd (attempts ideal_backend 2 (0, s)))) = window (bst s) 9"
    by (simp only: issued_append [OF t2] returned_attempt_calls [OF length_window])
  from run two tr m1 m2 m ret rec show ?thesis by (intro exI [of _ s'] conjI)
qed


lemma window_rejected_then_500:
  "window (bst (fresh rejected_then_500)) 0 = [0, 0, 0, 0, 0, 0, 0, 0, 1]"
  "window (bst (fresh rejected_then_500)) 9 = [0, 0, 1, 0, 1, 1, 1, 1, 1]"
  by (simp_all add: window_def fresh_def rejected_then_500_def)

lemma accumulate_256: "accumulate [0, 0, 0, 0, 0, 0, 0, 0, 1] = 256"
  by (simp add: accumulate_def upt_rec push_bit_eq_mult)

lemma accumulate_500: "accumulate [0, 0, 1, 0, 1, 1, 1, 1, 1] = 500"
  by (simp add: accumulate_def upt_rec push_bit_eq_mult)

text \<open>
  The theorem at the scripted backend: the first attempt reads the bits of 256, the
  second the bits of 500, and the values recorded for the slots 8 down to 0 are the
  bits of 500, most significant first.
\<close>

theorem rejected_then_accepted_witness:
  "\<exists>s'. random_numbers_over_500 ideal_backend (fresh rejected_then_500) = Some s' \<and>
     trace s' = attempt_calls [0, 0, 0, 0, 0, 0, 0, 0, 1] @
                attempt_calls [0, 0, 1, 0, 1, 1, 1, 1, 1] @ record_calls \<and>
     length (filter is_measure (issued (fresh rejected_then_500) s')) = 18 \<and>
     recorded (fresh rejected_then_500) s' =
       map2 (\<lambda>i v. Result_entry (to_voidp i) 0 v) [8, 7, 6, 5, 4, 3, 2, 1, 0]
         [1, 1, 1, 1, 1, 0, 1, 0, 0]"
proof -
  let ?s = "fresh rejected_then_500"
  have first: "fst (attempts ideal_backend 1 (0, ?s)) = 256"
    using ideal_attempts_result [of 0 0 ?s]
    by (simp add: window_rejected_then_500 accumulate_256)
  have second: "fst (attempts ideal_backend 2 (0, ?s)) = 500"
    using ideal_attempts_result [of 1 0 ?s]
    by (simp add: window_rejected_then_500 accumulate_500 numeral_2_eq_2)
  from rejected_then_accepted [OF first second] obtain s' where
    "random_numbers_over_500 ideal_backend ?s = Some s'"
    "trace s' = trace ?s @ attempt_calls (window (bst ?s) 0) @ attempt_calls (window (bst ?s) 9)
                  @ record_calls"
    "length (filter is_measure (issued ?s s')) = 18"
    "recorded ?s s' = map2 (\<lambda>i v. Result_entry (to_voidp i) 0 v) [8, 7, 6, 5, 4, 3, 2, 1, 0]
                       (rev (window (bst ?s) 9))"
    by blast
  moreover have "trace ?s = []" by (simp add: fresh_def)
  ultimately show ?thesis
    by (intro exI [of _ s']) (simp add: window_rejected_then_500)
qed

section \<open>Records come only after acceptance\<close>

lemma records_attempt_calls: "filter is_record (attempt_calls ms) = []"
  by (auto simp: attempt_calls_def prepare_calls_def measure_calls_def is_record_def
      filter_empty_conv dest!: set_zip_rightD set_zip_leftD)

lemma records_attempts: "filter is_record (issued s (snd (attempts B k (r, s)))) = []"
proof -
  from attempts_sem [of k B r s] obtain mss where
    "trace (snd (attempts B k (r, s))) = trace s @ concat (map attempt_calls mss)" by blast
  from issued_append [OF this] show ?thesis
    by (simp add: filter_concat records_attempt_calls comp_def)
qed

text \<open>
  C2. In every run of \<^verbatim>\<open>random_numbers_over_500\<close>, on every backend: the iterations of
  the sampling loop, however many have run, issue no record call; and the trace of a
  run that terminates is the trace of \<open>k \<ge> 1\<close> iterations, of which the last measured an
  accumulator of at least 500 and every earlier one an accumulator below 500, followed
  by the record calls. So no record call comes during or between rejected iterations.
  On a backend of the contract, the nine values recorded are the outcomes of the
  accepted attempt, the one after the rejected ones.
\<close>

theorem no_record_before_acceptance:
  "(\<forall>k. filter is_record (issued s (snd (attempts B k (0, s)))) = []) \<and>
   (random_numbers_over_500 B s = Some s' \<longrightarrow>
      (\<exists>k. 0 < k \<and> (\<forall>j<k. fst (attempts B j (0, s)) <s 500) \<and>
           500 \<le>s fst (attempts B k (0, s)) \<and>
           trace s' = trace (snd (attempts B k (0, s))) @ record_calls)) \<and>
   (random_numbers_over_500 ideal_backend t = Some t' \<longrightarrow>
      (\<exists>n. (\<forall>j<n. accumulate (window (bst t) (9 * j)) <s 500) \<and>
           500 \<le>s accumulate (window (bst t) (9 * n)) \<and>
           length (recorded t t') = 9 \<and>
           map entry_value (recorded t t') = rev (window (bst t) (9 * n))))"
proof (intro conjI allI impI)
  fix k
  show "filter is_record (issued s (snd (attempts B k (0, s)))) = []"
    by (rule records_attempts)
next
  assume "random_numbers_over_500 B s = Some s'"
  from run_Some [OF this] obtain k where k: "0 < k"
    "\<forall>j<k. fst (attempts B j (0, s)) <s 500" "500 \<le>s fst (attempts B k (0, s))"
    "s' = random_numbers_over_500_for B 8 (snd (attempts B k (0, s)))" by blast
  from k(4) have "trace s' = trace (snd (attempts B k (0, s))) @ record_calls"
    by (simp only: random_numbers_over_500_for_trace)
  with k(1-3) show "\<exists>k. 0 < k \<and> (\<forall>j<k. fst (attempts B j (0, s)) <s 500) \<and>
           500 \<le>s fst (attempts B k (0, s)) \<and>
           trace s' = trace (snd (attempts B k (0, s))) @ record_calls"
    by (intro exI [of _ k] conjI)
next
  assume "random_numbers_over_500 ideal_backend t = Some t'"
  from ideal_run_Some [OF this] obtain n where
    rej: "\<forall>j<n. accumulate (window (bst t) (9 * j)) <s 500" and
    acc: "500 \<le>s accumulate (window (bst t) (9 * n))" and
    rec: "recorded t t' = map2 (\<lambda>i v. Result_entry (to_voidp i) 0 v) (rev qubits)
                      (rev (window (bst t) (9 * n)))" by blast
  have len: "length (rev (window (bst t) (9 * n))) = 9" by (simp add: length_window)
  have vals: "map entry_value (recorded t t') = rev (window (bst t) (9 * n))"
    by (simp only: rec recorded_values [OF len])
  have "length (recorded t t') = 9" using len by (simp add: rec qubits_def)
  with rej acc vals show "\<exists>n. (\<forall>j<n. accumulate (window (bst t) (9 * j)) <s 500) \<and>
           500 \<le>s accumulate (window (bst t) (9 * n)) \<and>
           length (recorded t t') = 9 \<and>
           map entry_value (recorded t t') = rev (window (bst t) (9 * n))"
    by (intro exI [of _ n] conjI)
qed

text \<open>The run on the scripted backend: one rejected attempt, then 500.\<close>

lemma run_rejected_then_500:
  "\<exists>s'. random_numbers_over_500 ideal_backend (fresh rejected_then_500) = Some s' \<and>
     s' = random_numbers_over_500_for ideal_backend 8
            (snd (attempts ideal_backend 2 (0, fresh rejected_then_500))) \<and>
     trace s' = attempt_calls [0, 0, 0, 0, 0, 0, 0, 0, 1] @
                attempt_calls [0, 0, 1, 0, 1, 1, 1, 1, 1] @ record_calls"
proof -
  let ?s = "fresh rejected_then_500"
  have first: "fst (attempts ideal_backend 1 (0, ?s)) = 256"
    using ideal_attempts_result [of 0 0 ?s]
    by (simp add: window_rejected_then_500 accumulate_256)
  have second: "fst (attempts ideal_backend 2 (0, ?s)) = 500"
    using ideal_attempts_result [of 1 0 ?s]
    by (simp add: window_rejected_then_500 accumulate_500 numeral_2_eq_2)
  have "\<forall>j<2. fst (attempts ideal_backend j (0, ?s)) <s 500"
  proof (intro allI impI)
    fix j :: nat assume "j < 2"
    then have "j = 0 \<or> j = 1" by auto
    then show "fst (attempts ideal_backend j (0, ?s)) <s 500"
      using first by (auto simp: signed_cmp)
  qed
  moreover have "500 \<le>s fst (attempts ideal_backend 2 (0, ?s))"
    by (simp add: second signed_cmp)
  ultimately have run: "random_numbers_over_500 ideal_backend ?s =
      Some (random_numbers_over_500_for ideal_backend 8 (snd (attempts ideal_backend 2 (0, ?s))))"
    by (rule run_first_accept)
  have "trace (snd (attempts ideal_backend 2 (0, ?s))) =
      attempt_calls [0, 0, 0, 0, 0, 0, 0, 0, 1] @ attempt_calls [0, 0, 1, 0, 1, 1, 1, 1, 1]"
    using ideal_attempts_state [of 2 0 ?s]
    by (simp add: upt_rec window_rejected_then_500 del: attempts.simps) (simp add: fresh_def)
  then have "trace (random_numbers_over_500_for ideal_backend 8
      (snd (attempts ideal_backend 2 (0, ?s)))) =
      attempt_calls [0, 0, 0, 0, 0, 0, 0, 0, 1] @ attempt_calls [0, 0, 1, 0, 1, 1, 1, 1, 1] @
      record_calls"
    by (simp only: random_numbers_over_500_for_trace append_assoc)
  with run show ?thesis by blast
qed

text \<open>The theorem at the run on the scripted backend.\<close>

theorem no_record_before_acceptance_witness:
  "\<exists>s'. random_numbers_over_500 ideal_backend (fresh rejected_then_500) = Some s' \<and>
     filter is_record (issued (fresh rejected_then_500)
        (snd (attempts ideal_backend 1 (0, fresh rejected_then_500)))) = [] \<and>
     (\<exists>k. 0 < k \<and> 500 \<le>s fst (attempts ideal_backend k (0, fresh rejected_then_500)) \<and>
          trace s' = trace (snd (attempts ideal_backend k (0, fresh rejected_then_500)))
                       @ record_calls) \<and>
     (\<exists>n. 500 \<le>s accumulate (window (bst (fresh rejected_then_500)) (9 * n)) \<and>
          map entry_value (recorded (fresh rejected_then_500) s') =
            rev (window (bst (fresh rejected_then_500)) (9 * n)))"
proof -
  let ?s = "fresh rejected_then_500"
  from run_rejected_then_500 obtain s' where
    run: "random_numbers_over_500 ideal_backend ?s = Some s'" by blast
  note th = no_record_before_acceptance [of ?s ideal_backend s' ?s s']
  have a: "filter is_record (issued ?s (snd (attempts ideal_backend 1 (0, ?s)))) = []"
    using th [THEN conjunct1] by (rule spec)
  from th [THEN conjunct2, THEN conjunct1, rule_format, OF run]
  obtain k where "0 < k" "500 \<le>s fst (attempts ideal_backend k (0, ?s))"
    "trace s' = trace (snd (attempts ideal_backend k (0, ?s))) @ record_calls" by blast
  then have b: "\<exists>k. 0 < k \<and> 500 \<le>s fst (attempts ideal_backend k (0, ?s)) \<and>
          trace s' = trace (snd (attempts ideal_backend k (0, ?s))) @ record_calls"
    by (intro exI [of _ k] conjI)
  from th [THEN conjunct2, THEN conjunct2, rule_format, OF run]
  obtain n where "500 \<le>s accumulate (window (bst ?s) (9 * n))"
    "map entry_value (recorded ?s s') = rev (window (bst ?s) (9 * n))" by blast
  then have c: "\<exists>n. 500 \<le>s accumulate (window (bst ?s) (9 * n)) \<and>
          map entry_value (recorded ?s s') = rev (window (bst ?s) (9 * n))"
    by (intro exI [of _ n] conjI)
  from run a b c show ?thesis by (intro exI [of _ s'] conjI)
qed

section \<open>Termination of the sampling loop\<close>

lemma accumulate_zeros: "accumulate [0, 0, 0, 0, 0, 0, 0, 0, 0] = 0"
  by (simp add: accumulate_def upt_rec push_bit_eq_mult)

lemma window_zeros_then_ones_low:
  "j < n \<Longrightarrow> window (bst (fresh (zeros_then_ones n))) (9 * j) = [0, 0, 0, 0, 0, 0, 0, 0, 0]"
  by (simp add: window_def fresh_def zeros_then_ones_def)

lemma window_zeros_then_ones_high:
  "window (bst (fresh (zeros_then_ones n))) (9 * n) = [1, 1, 1, 1, 1, 1, 1, 1, 1]"
  by (simp add: window_def fresh_def zeros_then_ones_def)

lemma zeros_then_ones_attempts:
  "(\<forall>j\<le>n. fst (attempts ideal_backend j (0, fresh (zeros_then_ones n))) <s 500) \<and>
   500 \<le>s fst (attempts ideal_backend (Suc n) (0, fresh (zeros_then_ones n)))"
proof (intro conjI allI impI)
  fix j assume j: "j \<le> n"
  show "fst (attempts ideal_backend j (0, fresh (zeros_then_ones n))) <s 500"
  proof (cases j)
    case 0
    then show ?thesis by (simp add: signed_cmp)
  next
    case (Suc i)
    with j have "i < n" by simp
    then show ?thesis unfolding Suc
      by (simp only: ideal_attempts_result window_zeros_then_ones_low accumulate_zeros)
        (simp add: signed_cmp)
  qed
next
  show "500 \<le>s fst (attempts ideal_backend (Suc n) (0, fresh (zeros_then_ones n)))"
    by (simp only: ideal_attempts_result window_zeros_then_ones_high accumulate_all_ones)
      (simp add: signed_cmp)
qed

text \<open>
  C5. The sampling loop has no iteration cap. On every backend and from every state,
  the run terminates if and only if some iteration measures an accumulator of at least
  500; it then stops right after the first such iteration \<open>k\<close> (the state it records from
  is the state after exactly \<open>k\<close> iterations); and for every \<open>n\<close> there is a backend on
  which the first \<open>n\<close> iterations are rejected and iteration \<open>n + 1\<close> is accepted.
\<close>

theorem sampling_loop_unbounded:
  "((random_numbers_over_500 B s \<noteq> None) = (\<exists>k. 500 \<le>s fst (attempts B k (0, s)))) \<and>
   (\<forall>k. (\<forall>j<k. fst (attempts B j (0, s)) <s 500) \<and> 500 \<le>s fst (attempts B k (0, s)) \<longrightarrow>
        random_numbers_over_500 B s =
          Some (random_numbers_over_500_for B 8 (snd (attempts B k (0, s))))) \<and>
   (\<forall>n. \<exists>f. (\<forall>j\<le>n. fst (attempts ideal_backend j (0, fresh f)) <s 500) \<and>
            500 \<le>s fst (attempts ideal_backend (Suc n) (0, fresh f)))"
proof (intro conjI allI impI)
  show "(random_numbers_over_500 B s \<noteq> None) = (\<exists>k. 500 \<le>s fst (attempts B k (0, s)))"
    by (rule run_terminates_iff)
next
  fix k
  assume "(\<forall>j<k. fst (attempts B j (0, s)) <s 500) \<and> 500 \<le>s fst (attempts B k (0, s))"
  then show "random_numbers_over_500 B s =
      Some (random_numbers_over_500_for B 8 (snd (attempts B k (0, s))))"
    by (intro run_first_accept) simp_all
next
  fix n
  show "\<exists>f. (\<forall>j\<le>n. fst (attempts ideal_backend j (0, fresh f)) <s 500) \<and>
            500 \<le>s fst (attempts ideal_backend (Suc n) (0, fresh f))"
    by (rule exI [of _ "zeros_then_ones n"]) (rule zeros_then_ones_attempts)
qed

text \<open>
  The theorem at a backend that rejects 40 attempts: the run returns, from the state
  after exactly 41 iterations.
\<close>

theorem sampling_loop_unbounded_witness:
  "random_numbers_over_500 ideal_backend (fresh (zeros_then_ones 40)) \<noteq> None \<and>
   random_numbers_over_500 ideal_backend (fresh (zeros_then_ones 40)) =
     Some (random_numbers_over_500_for ideal_backend 8
             (snd (attempts ideal_backend 41 (0, fresh (zeros_then_ones 40)))))"
proof -
  let ?s = "fresh (zeros_then_ones 40)"
  from zeros_then_ones_attempts [of 40]
  have rej: "\<forall>j<41. fst (attempts ideal_backend j (0, ?s)) <s 500"
    and acc: "500 \<le>s fst (attempts ideal_backend 41 (0, ?s))"
    by (simp_all del: attempts.simps)
  from sampling_loop_unbounded [of ideal_backend ?s] rej acc
  have run: "random_numbers_over_500 ideal_backend ?s =
     Some (random_numbers_over_500_for ideal_backend 8 (snd (attempts ideal_backend 41 (0, ?s))))"
    by blast
  then show ?thesis by simp
qed

section \<open>The chain-entanglement program\<close>

lemma CX_calls: "trace (CX B c t s) = trace s @ cx_calls c t"
  by (simp add: CX_def quantum_qis_h_body_def quantum_qis_cz_body_def cx_calls_def)

lemma full_entangle_for_sem:
  "\<exists>ms. length ms = 9 \<and> trace (full_entangle_for B 8 s) = trace s @ measure_record_calls ms"
proof -
  obtain m8 s8 where e8: "MResetZ B 8 8 s = (m8, s8)" by (cases "MResetZ B 8 8 s")
  obtain m7 s7 where e7: "MResetZ B 7 7 (RecordResult B 8 s8) = (m7, s7)"
    by (cases "MResetZ B 7 7 (RecordResult B 8 s8)")
  obtain m6 s6 where e6: "MResetZ B 6 6 (RecordResult B 7 s7) = (m6, s6)"
    by (cases "MResetZ B 6 6 (RecordResult B 7 s7)")
  obtain m5 s5 where e5: "MResetZ B 5 5 (RecordResult B 6 s6) = (m5, s5)"
    by (cases "MResetZ B 5 5 (RecordResult B 6 s6)")
  obtain m4 s4 where e4: "MResetZ B 4 4 (RecordResult B 5 s5) = (m4, s4)"
    by (cases "MResetZ B 4 4 (RecordResult B 5 s5)")
  obtain m3 s3 where e3: "MResetZ B 3 3 (RecordResult B 4 s4) = (m3, s3)"
    by (cases "MResetZ B 3 3 (RecordResult B 4 s4)")
  obtain m2 s2 where e2: "MResetZ B 2 2 (RecordResult B 3 s3) = (m2, s2)"
    by (cases "MResetZ B 2 2 (RecordResult B 3 s3)")
  obtain m1 s1 where e1: "MResetZ B 1 1 (RecordResult B 2 s2) = (m1, s1)"
    by (cases "MResetZ B 1 1 (RecordResult B 2 s2)")
  obtain m0 s0 where e0: "MResetZ B 0 0 (RecordResult B 1 s1) = (m0, s0)"
    by (cases "MResetZ B 0 0 (RecordResult B 1 s1)")
  note es = e8 e7 e6 e5 e4 e3 e2 e1 e0
  have run: "full_entangle_for B 8 s = RecordResult B 0 s0"
    by (simp add: full_entangle_for.simps signed_cmp es)
  have "trace (RecordResult B 0 s0) =
      trace s @ measure_record_calls [m8, m7, m6, m5, m4, m3, m2, m1, m0]"
    by (simp add: es [THEN MResetZ_trace] RecordResult_trace measure_record_calls_def)
  then show ?thesis
    by (intro exI [of _ "[m8, m7, m6, m5, m4, m3, m2, m1, m0]"]) (simp add: run)
qed

lemma full_entangle_gates:
  "full_entangle B s = full_entangle_for B 8
     (CX B 7 8 (CX B 6 7 (CX B 5 6 (CX B 4 5 (CX B 3 4 (CX B 2 3 (CX B 1 2 (CX B 0 1
        (H B 0 s)))))))))"
  by (simp add: full_entangle_def)

lemma entangle_trace:
  "trace (CX B 7 8 (CX B 6 7 (CX B 5 6 (CX B 4 5 (CX B 3 4 (CX B 2 3 (CX B 1 2 (CX B 0 1
     (H B 0 s))))))))) = trace s @ entangle_calls"
  by (simp add: CX_calls H_trace entangle_calls_def)

lemma returned_measure_record_calls:
  assumes "length ms = 9"
  shows "returned (measure_record_calls ms) = ms"
proof -
  from length_9 [OF assms] obtain m0 m1 m2 m3 m4 m5 m6 m7 m8
    where "ms = [m0, m1, m2, m3, m4, m5, m6, m7, m8]" by blast
  then show ?thesis by (simp add: measure_record_calls_def)
qed

lemma returned_entangle_calls: "returned entangle_calls = []"
  by (simp add: entangle_calls_def cx_calls_def)

lemma not_read_measure_record_calls:
  assumes "length ms = 9"
  shows "filter (\<lambda>c. kind c \<noteq> Read_Bit) (measure_record_calls ms) = measure_record_pairs"
proof -
  from length_9 [OF assms] obtain m0 m1 m2 m3 m4 m5 m6 m7 m8
    where "ms = [m0, m1, m2, m3, m4, m5, m6, m7, m8]" by blast
  then show ?thesis by (simp add: measure_record_calls_def measure_record_pairs_def)
qed

lemma not_read_entangle_calls:
  "filter (\<lambda>c. kind c \<noteq> Read_Bit) entangle_calls = entangle_calls"
  by (simp add: entangle_calls_def cx_calls_def)

lemma full_entangle_sem:
  "\<exists>ms. length ms = 9 \<and>
     trace (full_entangle B s) = trace s @ entangle_calls @ measure_record_calls ms"
  using full_entangle_for_sem [of B "CX B 7 8 (CX B 6 7 (CX B 5 6 (CX B 4 5 (CX B 3 4
     (CX B 2 3 (CX B 1 2 (CX B 0 1 (H B 0 s))))))))"]
  by (simp only: full_entangle_gates entangle_trace append_assoc)

lemma length_entangle_calls: "length entangle_calls = 25"
  by (simp add: entangle_calls_def cx_calls_def)

lemma length_measure_record_calls: "length ms = 9 \<Longrightarrow> length (measure_record_calls ms) = 27"
  by (drule length_9) (auto simp: measure_record_calls_def)

lemma length_measure_record_pairs: "length measure_record_pairs = 18"
  by (simp add: measure_record_pairs_def)

lemma first_measurement_calls:
  assumes "length ms = 9"
  shows "kind ((entangle_calls @ measure_record_calls ms) ! 25) = Measure_And_Reset \<and>
         kind ((entangle_calls @ measure_record_calls ms) ! 26) = Read_Bit \<and>
         kind ((entangle_calls @ measure_record_calls ms) ! 27) = Record_Scalar_Output"
proof -
  from length_9 [OF assms] obtain m0 m1 m2 m3 m4 m5 m6 m7 m8
    where "ms = [m0, m1, m2, m3, m4, m5, m6, m7, m8]" by blast
  then show ?thesis
    by (simp add: nth_append length_entangle_calls measure_record_calls_def)
qed

text \<open>
  C6, as stated, fails: the calls of a run of \<^verbatim>\<open>full_entangle\<close> are not the 43 calls that
  the claim lists (apply-H, the 24 gate calls, nine pairs of measure-and-reset and
  record). On the backend of the contract with all-ones outcomes the run issues 52
  calls, and the record of slot 8 does not follow the measure-and-reset of qubit 8 at
  once: the call between them, at index 26, is a read-bit call.
\<close>

theorem full_entangle_pairs_counterexample:
  "issued (fresh all_ones) (full_entangle ideal_backend (fresh all_ones)) \<noteq>
     Call_h (to_voidp 0) # concat (map (\<lambda>i. cx_calls i (i + 1)) [0, 1, 2, 3, 4, 5, 6, 7])
       @ measure_record_pairs \<and>
   length (issued (fresh all_ones) (full_entangle ideal_backend (fresh all_ones))) = 52 \<and>
   length (Call_h (to_voidp 0) # concat (map (\<lambda>i. cx_calls i (i + 1)) [0, 1, 2, 3, 4, 5, 6, 7])
       @ measure_record_pairs) = 43 \<and>
   kind (issued (fresh all_ones) (full_entangle ideal_backend (fresh all_ones)) ! 25) =
     Measure_And_Reset \<and>
   kind (issued (fresh all_ones) (full_entangle ideal_backend (fresh all_ones)) ! 26) =
     Read_Bit \<and>
   kind (issued (fresh all_ones) (full_entangle ideal_backend (fresh all_ones)) ! 27) =
     Record_Scalar_Output"
proof -
  let ?s = "fresh all_ones"
  let ?claimed = "Call_h (to_voidp 0) #
    concat (map (\<lambda>i. cx_calls i (i + 1)) [0, 1, 2, 3, 4, 5, 6, 7]) @ measure_record_pairs"
  from full_entangle_sem [of ideal_backend ?s] obtain ms where ms: "length ms = 9"
    "trace (full_entangle ideal_backend ?s) =
       trace ?s @ entangle_calls @ measure_record_calls ms" by blast
  have iss: "issued ?s (full_entangle ideal_backend ?s) =
      entangle_calls @ measure_record_calls ms"
    by (rule issued_append [OF ms(2)])
  have len: "length (issued ?s (full_entangle ideal_backend ?s)) = 52"
    by (simp add: iss length_entangle_calls length_measure_record_calls [OF ms(1)])
  have "?claimed = entangle_calls @ measure_record_pairs" by (simp add: entangle_calls_def)
  then have claimed: "length ?claimed = 43"
    by (simp only: length_append length_entangle_calls length_measure_record_pairs)
  have ne: "issued ?s (full_entangle ideal_backend ?s) \<noteq> ?claimed"
  proof
    assume "issued ?s (full_entangle ideal_backend ?s) = ?claimed"
    then have "length (issued ?s (full_entangle ideal_backend ?s)) = length ?claimed"
      by (rule arg_cong)
    with len claimed show False by simp
  qed
  from first_measurement_calls [OF ms(1)]
  have kinds: "kind (issued ?s (full_entangle ideal_backend ?s) ! 25) = Measure_And_Reset"
    "kind (issued ?s (full_entangle ideal_backend ?s) ! 26) = Read_Bit"
    "kind (issued ?s (full_entangle ideal_backend ?s) ! 27) = Record_Scalar_Output"
    by (simp_all only: iss)
  from ne len claimed kinds show ?thesis by (intro conjI)
qed

text \<open>
  C6, amended. A run of \<^verbatim>\<open>full_entangle\<close>, on every backend, issues exactly these 52
  calls: apply-H on qubit 0; then the eight controlled-NOT decompositions
  \<open>CX(i, i + 1)\<close> for \<open>i\<close> = 0, ..., 7 in increasing order, 24 gate calls; then nine
  triples, one for each qubit \<open>i\<close> from 8 down to 0: measure-and-reset of qubit \<open>i\<close> into
  slot \<open>i\<close>, read-bit of slot \<open>i\<close>, record of slot \<open>i\<close>. So each record follows at once
  the read of its slot, which follows at once the measure-and-reset of its qubit.
  Without the nine read-bit calls, what is left is the trace of the original claim.
\<close>

theorem full_entangle_trace:
  "trace (full_entangle B s) =
     trace s @ Call_h (to_voidp 0) # concat (map (\<lambda>i. cx_calls i (i + 1)) [0, 1, 2, 3, 4, 5, 6, 7])
       @ measure_record_calls (returned (issued s (full_entangle B s))) \<and>
   length (returned (issued s (full_entangle B s))) = 9 \<and>
   length (concat (map (\<lambda>i. cx_calls i (i + 1)) [0, 1, 2, 3, 4, 5, 6, 7])) = 24 \<and>
   length (measure_record_calls (returned (issued s (full_entangle B s)))) = 27 \<and>
   length (issued s (full_entangle B s)) = 52 \<and>
   filter (\<lambda>c. kind c \<noteq> Read_Bit) (issued s (full_entangle B s)) =
     Call_h (to_voidp 0) # concat (map (\<lambda>i. cx_calls i (i + 1)) [0, 1, 2, 3, 4, 5, 6, 7])
       @ measure_record_pairs"
proof -
  from full_entangle_sem [of B s] obtain ms where ms: "length ms = 9"
    "trace (full_entangle B s) = trace s @ entangle_calls @ measure_record_calls ms" by blast
  have iss: "issued s (full_entangle B s) = entangle_calls @ measure_record_calls ms"
    by (rule issued_append [OF ms(2)])
  have ret: "returned (issued s (full_entangle B s)) = ms"
    by (simp add: iss returned_append returned_entangle_calls
        returned_measure_record_calls [OF ms(1)])
  have "filter (\<lambda>c. kind c \<noteq> Read_Bit) (issued s (full_entangle B s)) =
      entangle_calls @ measure_record_pairs"
    by (simp add: iss not_read_entangle_calls not_read_measure_record_calls [OF ms(1)])
  moreover have "length (concat (map (\<lambda>i. cx_calls i (i + 1)) [0, 1, 2, 3, 4, 5, 6, 7 :: cint])) = 24"
    by (simp add: cx_calls_def)
  moreover have "length (measure_record_calls ms) = 27"
    by (rule length_measure_record_calls [OF ms(1)])
  moreover have "length (issued s (full_entangle B s)) = 52"
    by (simp add: iss length_entangle_calls length_measure_record_calls [OF ms(1)])
  ultimately show ?thesis
    unfolding ret using ms by (simp add: entangle_calls_def)
qed

section \<open>The slot of a measurement is its qubit\<close>

lemma in_concat_map2:
  "c \<in> set (concat (map2 f xs ys)) \<Longrightarrow> \<exists>i\<in>set xs. \<exists>m. c \<in> set (f i m)"
  by (auto dest!: set_zip_leftD)

lemma set_countdown: "set [8, 7, 6, 5, 4, 3, 2, 1, 0] = set qubits"
  by (simp add: qubits_def insert_commute)

lemma mresetz_measure_calls:
  assumes "Call_mresetz q r \<in> set (measure_calls ms)"
  shows "\<exists>i\<in>set qubits. q = to_voidp i \<and> r = to_voidp i"
  using in_concat_map2 [OF assms [unfolded measure_calls_def]] by auto

lemma mresetz_attempt_calls:
  "Call_mresetz q r \<in> set (attempt_calls ms) \<Longrightarrow> \<exists>i\<in>set qubits. q = to_voidp i \<and> r = to_voidp i"
  using mresetz_measure_calls [of q r ms]
  by (auto simp: attempt_calls_def prepare_calls_def)

lemma mresetz_attempts:
  assumes "Call_mresetz q r \<in> set (issued s (snd (attempts B k (x, s))))"
  shows "\<exists>i\<in>set qubits. q = to_voidp i \<and> r = to_voidp i"
proof -
  from attempts_sem [of k B x s] obtain mss where
    "trace (snd (attempts B k (x, s))) = trace s @ concat (map attempt_calls mss)" by blast
  from issued_append [OF this] assms obtain ms where
    "Call_mresetz q r \<in> set (attempt_calls ms)" by auto
  then show ?thesis by (rule mresetz_attempt_calls)
qed

lemma mresetz_record_calls: "Call_mresetz q r \<notin> set record_calls"
  by (auto simp: record_calls_def)

lemma mresetz_entangle_calls: "Call_mresetz q r \<notin> set entangle_calls"
  by (auto simp: entangle_calls_def cx_calls_def)

lemma mresetz_measure_record_calls:
  assumes "Call_mresetz q r \<in> set (measure_record_calls ms)"
  shows "\<exists>i\<in>set qubits. q = to_voidp i \<and> r = to_voidp i"
  using in_concat_map2 [OF assms [unfolded measure_record_calls_def]]
  unfolding set_countdown by auto

lemma mresetz_run:
  assumes run: "random_numbers_over_500 B s = Some s'"
    and c: "Call_mresetz q r \<in> set (issued s s')"
  shows "\<exists>i\<in>set qubits. q = to_voidp i \<and> r = to_voidp i"
proof -
  from run_Some [OF run] obtain k where
    s': "s' = random_numbers_over_500_for B 8 (snd (attempts B k (0, s)))" by blast
  from attempts_sem [of k B 0 s] obtain mss where
    tr: "trace (snd (attempts B k (0, s))) = trace s @ concat (map attempt_calls mss)" by blast
  have "trace s' = trace s @ concat (map attempt_calls mss) @ record_calls"
    by (simp only: s' random_numbers_over_500_for_trace tr append_assoc)
  from issued_append [OF this] c mresetz_record_calls obtain ms where
    "Call_mresetz q r \<in> set (attempt_calls ms)" by auto
  then show ?thesis by (rule mresetz_attempt_calls)
qed

lemma mresetz_full_entangle:
  assumes c: "Call_mresetz q r \<in> set (issued s (full_entangle B s))"
  shows "\<exists>i\<in>set qubits. q = to_voidp i \<and> r = to_voidp i"
proof -
  from full_entangle_sem [of B s] obtain ms where
    "trace (full_entangle B s) = trace s @ entangle_calls @ measure_record_calls ms" by blast
  from issued_append [OF this] c mresetz_entangle_calls
  have "Call_mresetz q r \<in> set (measure_record_calls ms)" by auto
  then show ?thesis by (rule mresetz_measure_record_calls)
qed

text \<open>
  C9. In every run of both programs, on every backend, every measure-and-reset call
  names a slot equal to its qubit, one of the indices 0 to 8: within any number of
  iterations of the sampling loop, in a run of \<^verbatim>\<open>random_numbers_over_500\<close> that returns,
  and in a run of \<^verbatim>\<open>full_entangle\<close>.
\<close>

theorem slot_is_qubit:
  "(\<forall>k q r. Call_mresetz q r \<in> set (issued s (snd (attempts B k (0, s)))) \<longrightarrow>
       (\<exists>i\<in>set qubits. q = to_voidp i \<and> r = to_voidp i)) \<and>
   (\<forall>s' q r. random_numbers_over_500 B s = Some s' \<and> Call_mresetz q r \<in> set (issued s s') \<longrightarrow>
       (\<exists>i\<in>set qubits. q = to_voidp i \<and> r = to_voidp i)) \<and>
   (\<forall>q r. Call_mresetz q r \<in> set (issued s (full_entangle B s)) \<longrightarrow>
       (\<exists>i\<in>set qubits. q = to_voidp i \<and> r = to_voidp i))"
  using mresetz_attempts mresetz_run mresetz_full_entangle by blast

text \<open>
  The theorem at two calls that do occur: the measurement of qubit 3 in the chain
  program and the measurement of qubit 5 in the all-ones run of the sampling program.
\<close>

theorem slot_is_qubit_witness:
  "Call_mresetz (to_voidp 3) (to_voidp 3) \<in>
     set (issued (fresh all_ones) (full_entangle ideal_backend (fresh all_ones))) \<and>
   (\<exists>i\<in>set qubits. to_voidp 3 = to_voidp i) \<and>
   (\<exists>s'. random_numbers_over_500 ideal_backend (fresh all_ones) = Some s' \<and>
      Call_mresetz (to_voidp 5) (to_voidp 5) \<in> set (issued (fresh all_ones) s')) \<and>
   (\<exists>i\<in>set qubits. to_voidp 5 = to_voidp i)"
proof -
  let ?s = "fresh all_ones"
  from full_entangle_sem [of ideal_backend ?s] obtain ms where ms: "length ms = 9"
    "trace (full_entangle ideal_backend ?s) =
       trace ?s @ entangle_calls @ measure_record_calls ms" by blast
  from length_9 [OF ms(1)] obtain m0 m1 m2 m3 m4 m5 m6 m7 m8
    where "ms = [m0, m1, m2, m3, m4, m5, m6, m7, m8]" by blast
  then have "Call_mresetz (to_voidp 3) (to_voidp 3) \<in> set (measure_record_calls ms)"
    by (simp add: measure_record_calls_def)
  then have m3: "Call_mresetz (to_voidp 3) (to_voidp 3) \<in>
      set (issued ?s (full_entangle ideal_backend ?s))"
    by (simp add: issued_append [OF ms(2)])
  from run_all_ones obtain s' where
    run: "random_numbers_over_500 ideal_backend ?s = Some s'" and
    tr: "trace s' = attempt_calls [1, 1, 1, 1, 1, 1, 1, 1, 1] @ record_calls" by blast
  have "trace s' = trace ?s @ attempt_calls [1, 1, 1, 1, 1, 1, 1, 1, 1] @ record_calls"
    by (simp add: tr fresh_def)
  from issued_append [OF this]
  have m5: "Call_mresetz (to_voidp 5) (to_voidp 5) \<in> set (issued ?s s')"
    by (simp add: attempt_calls_def measure_calls_def qubits_def)
  from slot_is_qubit [of ?s ideal_backend] m3
  have q3: "\<exists>i\<in>set qubits. to_voidp 3 = to_voidp i" by blast
  from slot_is_qubit [of ?s ideal_backend] run m5
  have q5: "\<exists>i\<in>set qubits. to_voidp 5 = to_voidp i" by blast
  from run m5 have "\<exists>s'. random_numbers_over_500 ideal_backend ?s = Some s' \<and>
      Call_mresetz (to_voidp 5) (to_voidp 5) \<in> set (issued ?s s')" by blast
  with m3 q3 q5 show ?thesis by (intro conjI)
qed

section \<open>The intrinsics the entry routine calls\<close>

lemma kinds_measure_calls:
  assumes "c \<in> set (measure_calls ms)"
  shows "kind c \<in> {Measure_And_Reset, Read_Bit}"
  using in_concat_map2 [OF assms [unfolded measure_calls_def]] by auto

lemma kinds_attempt_calls:
  "c \<in> set (attempt_calls ms) \<Longrightarrow> kind c \<in> {Apply_H, Measure_And_Reset, Read_Bit}"
  using kinds_measure_calls [of c ms] by (auto simp: attempt_calls_def prepare_calls_def)

lemma kinds_record_calls: "c \<in> set record_calls \<Longrightarrow> kind c = Record_Scalar_Output"
  by (auto simp: record_calls_def)

lemma kinds_attempts:
  assumes "c \<in> set (issued s (snd (attempts B k (x, s))))"
  shows "kind c \<in> {Apply_H, Measure_And_Reset, Read_Bit}"
proof -
  from attempts_sem [of k B x s] obtain mss where
    "trace (snd (attempts B k (x, s))) = trace s @ concat (map attempt_calls mss)" by blast
  from issued_append [OF this] assms obtain ms where "c \<in> set (attempt_calls ms)" by auto
  then show ?thesis by (rule kinds_attempt_calls)
qed

lemma kinds_run:
  assumes run: "random_numbers_over_500 B s = Some s'" and c: "c \<in> set (issued s s')"
  shows "kind c \<in> {Apply_H, Measure_And_Reset, Read_Bit, Record_Scalar_Output}"
proof -
  from run_Some [OF run] obtain k where
    s': "s' = random_numbers_over_500_for B 8 (snd (attempts B k (0, s)))" by blast
  from attempts_sem [of k B 0 s] obtain mss where
    tr: "trace (snd (attempts B k (0, s))) = trace s @ concat (map attempt_calls mss)" by blast
  have "trace s' = trace s @ concat (map attempt_calls mss) @ record_calls"
    by (simp only: s' random_numbers_over_500_for_trace tr append_assoc)
  from issued_append [OF this] c
  have "(\<exists>ms. c \<in> set (attempt_calls ms)) \<or> c \<in> set record_calls" by auto
  then show ?thesis using kinds_attempt_calls kinds_record_calls by blast
qed

lemma kinds_main:
  "main_issues B s c \<Longrightarrow> kind c \<in> {Apply_H, Measure_And_Reset, Read_Bit, Record_Scalar_Output}"
  unfolding main_issues_def ENTRYPOINT__main_def
  using kinds_attempts [of c s B _ 0] kinds_run [of B s _ c] by blast

text \<open>
  C8, as stated, fails: it is not the case that for each of the seven operations some
  execution of \<^verbatim>\<open>ENTRYPOINT__main\<close> issues a call of it. No execution calls apply-X.
\<close>

theorem entry_point_calls_all_seven_counterexample:
  "\<not> (\<forall>op. \<exists>(B :: 'b backend) s c. main_issues B s c \<and> kind c = op)"
proof
  assume "\<forall>op. \<exists>(B :: 'b backend) s c. main_issues B s c \<and> kind c = op"
  then obtain B :: "'b backend" and s c where "main_issues B s c" "kind c = Apply_X" by blast
  with kinds_main [of B s c] show False by simp
qed

lemma kinds_of_all_ones_run:
  "\<exists>s'. ENTRYPOINT__main ideal_backend (fresh all_ones) = Some s' \<and>
     kind ` set (issued (fresh all_ones) s') =
       {Apply_H, Measure_And_Reset, Read_Bit, Record_Scalar_Output}"
proof -
  let ?s = "fresh all_ones"
  from run_all_ones obtain s' where
    run: "random_numbers_over_500 ideal_backend ?s = Some s'" and
    tr: "trace s' = attempt_calls [1, 1, 1, 1, 1, 1, 1, 1, 1] @ record_calls" by blast
  have "trace s' = trace ?s @ attempt_calls [1, 1, 1, 1, 1, 1, 1, 1, 1] @ record_calls"
    by (simp add: tr fresh_def)
  note iss = issued_append [OF this]
  have "Call_h (to_voidp 0) \<in> set (issued ?s s')"
    by (simp add: iss attempt_calls_def prepare_calls_def qubits_def)
  then have h: "Apply_H \<in> kind ` set (issued ?s s')" by force
  have "Call_mresetz (to_voidp 0) (to_voidp 0) \<in> set (issued ?s s')"
    by (simp add: iss attempt_calls_def measure_calls_def qubits_def)
  then have m: "Measure_And_Reset \<in> kind ` set (issued ?s s')" by force
  have "Call_read_result (to_voidp 0) 1 \<in> set (issued ?s s')"
    by (simp add: iss attempt_calls_def measure_calls_def qubits_def)
  then have r: "Read_Bit \<in> kind ` set (issued ?s s')" by force
  have "Call_result_record_output (to_voidp 0) 0 \<in> set (issued ?s s')"
    by (simp add: iss record_calls_def qubits_def)
  then have o: "Record_Scalar_Output \<in> kind ` set (issued ?s s')" by force
  have "kind ` set (issued ?s s') \<subseteq> {Apply_H, Measure_And_Reset, Read_Bit, Record_Scalar_Output}"
  proof
    fix k assume "k \<in> kind ` set (issued ?s s')"
    then obtain c where c: "c \<in> set (issued ?s s')" and k: "k = kind c" by (rule imageE)
    from kinds_run [OF run c] show "k \<in> {Apply_H, Measure_And_Reset, Read_Bit,
        Record_Scalar_Output}" by (simp only: k)
  qed
  moreover have "{Apply_H, Measure_And_Reset, Read_Bit, Record_Scalar_Output} \<subseteq>
      kind ` set (issued ?s s')" using h m r o by simp
  ultimately have "kind ` set (issued ?s s') =
      {Apply_H, Measure_And_Reset, Read_Bit, Record_Scalar_Output}" by (rule equalityI)
  with run show ?thesis by (simp add: ENTRYPOINT__main_def)
qed

lemma kinds_entangle_calls:
  "c \<in> set entangle_calls \<Longrightarrow> kind c \<in> {Apply_H, Apply_Controlled_Phase}"
  by (auto simp: entangle_calls_def cx_calls_def)

lemma kinds_measure_record_calls:
  assumes "c \<in> set (measure_record_calls ms)"
  shows "kind c \<in> {Measure_And_Reset, Read_Bit, Record_Scalar_Output}"
  using in_concat_map2 [OF assms [unfolded measure_record_calls_def]] by auto

lemma kinds_full_entangle:
  "kind ` set (issued s (full_entangle B s)) =
     {Apply_H, Apply_Controlled_Phase, Measure_And_Reset, Read_Bit, Record_Scalar_Output}"
proof -
  from full_entangle_sem [of B s] obtain ms where ms: "length ms = 9"
    "trace (full_entangle B s) = trace s @ entangle_calls @ measure_record_calls ms" by blast
  note iss = issued_append [OF ms(2)]
  from length_9 [OF ms(1)] obtain m0 m1 m2 m3 m4 m5 m6 m7 m8
    where l: "ms = [m0, m1, m2, m3, m4, m5, m6, m7, m8]" by blast
  have "Call_h (to_voidp 0) \<in> set (issued s (full_entangle B s))"
    by (simp add: iss entangle_calls_def)
  then have h: "Apply_H \<in> kind ` set (issued s (full_entangle B s))" by force
  have "Call_cz (to_voidp 0) (to_voidp 1) \<in> set (issued s (full_entangle B s))"
    by (simp add: iss entangle_calls_def cx_calls_def)
  then have z: "Apply_Controlled_Phase \<in> kind ` set (issued s (full_entangle B s))" by force
  have "Call_mresetz (to_voidp 8) (to_voidp 8) \<in> set (issued s (full_entangle B s))"
    by (simp add: iss l measure_record_calls_def)
  then have m: "Measure_And_Reset \<in> kind ` set (issued s (full_entangle B s))" by force
  have "Call_read_result (to_voidp 8) m0 \<in> set (issued s (full_entangle B s))"
    by (simp add: iss l measure_record_calls_def)
  then have r: "Read_Bit \<in> kind ` set (issued s (full_entangle B s))" by force
  have "Call_result_record_output (to_voidp 8) 0 \<in> set (issued s (full_entangle B s))"
    by (simp add: iss l measure_record_calls_def)
  then have o: "Record_Scalar_Output \<in> kind ` set (issued s (full_entangle B s))" by force
  have "kind ` set (issued s (full_entangle B s)) \<subseteq>
      {Apply_H, Apply_Controlled_Phase, Measure_And_Reset, Read_Bit, Record_Scalar_Output}"
  proof
    fix k assume "k \<in> kind ` set (issued s (full_entangle B s))"
    then obtain c where c: "c \<in> set entangle_calls \<or> c \<in> set (measure_record_calls ms)"
      and k: "k = kind c" by (auto simp: iss)
    from c show "k \<in> {Apply_H, Apply_Controlled_Phase, Measure_And_Reset, Read_Bit,
        Record_Scalar_Output}"
    proof
      assume "c \<in> set entangle_calls"
      from kinds_entangle_calls [OF this] show ?thesis by (auto simp: k)
    next
      assume "c \<in> set (measure_record_calls ms)"
      from kinds_measure_record_calls [OF this] show ?thesis by (auto simp: k)
    qed
  qed
  moreover have "{Apply_H, Apply_Controlled_Phase, Measure_And_Reset, Read_Bit,
      Record_Scalar_Output} \<subseteq> kind ` set (issued s (full_entangle B s))"
    using h z m r o by simp
  ultimately show ?thesis by (rule equalityI)
qed

text \<open>
  C8, amended. Every call that an execution of \<^verbatim>\<open>ENTRYPOINT__main\<close> issues is a call of
  apply-H, measure-and-reset, read-bit or record-scalar-output, and each of these four
  is called by some execution of it. The program \<^verbatim>\<open>full_entangle\<close>, which the entry
  routine does not invoke, calls exactly these four and apply-controlled-phase. Apply-X
  and record-array-output are declared and never called.
\<close>

theorem entry_point_calls:
  "(\<forall>c. main_issues B s c \<longrightarrow>
       kind c \<in> {Apply_H, Measure_And_Reset, Read_Bit, Record_Scalar_Output}) \<and>
   (\<forall>op. op \<in> {Apply_H, Measure_And_Reset, Read_Bit, Record_Scalar_Output} \<longrightarrow>
       (\<exists>c. main_issues ideal_backend (fresh all_ones) c \<and> kind c = op)) \<and>
   kind ` set (issued s (full_entangle B s)) =
     {Apply_H, Apply_Controlled_Phase, Measure_And_Reset, Read_Bit, Record_Scalar_Output}"
proof (intro conjI allI impI)
  fix c assume "main_issues B s c"
  then show "kind c \<in> {Apply_H, Measure_And_Reset, Read_Bit, Record_Scalar_Output}"
    by (rule kinds_main)
next
  fix op assume op: "op \<in> {Apply_H, Measure_And_Reset, Read_Bit, Record_Scalar_Output}"
  from kinds_of_all_ones_run obtain s' where
    run: "ENTRYPOINT__main ideal_backend (fresh all_ones) = Some s'" and
    ks: "kind ` set (issued (fresh all_ones) s') =
       {Apply_H, Measure_And_Reset, Read_Bit, Record_Scalar_Output}" by blast
  from op have "op \<in> kind ` set (issued (fresh all_ones) s')" by (simp only: ks)
  then obtain c where c: "c \<in> set (issued (fresh all_ones) s')" and k: "op = kind c"
    by (rule imageE)
  from run c have "main_issues ideal_backend (fresh all_ones) c"
    unfolding main_issues_def by (intro disjI2 exI [of _ s'] conjI)
  with k show "\<exists>c. main_issues ideal_backend (fresh all_ones) c \<and> kind c = op"
    by (intro exI [of _ c]) simp
next
  show "kind ` set (issued s (full_entangle B s)) =
     {Apply_H, Apply_Controlled_Phase, Measure_And_Reset, Read_Bit, Record_Scalar_Output}"
    by (rule kinds_full_entangle)
qed

text \<open>The theorem at the all-ones run of the entry routine.\<close>

theorem entry_point_calls_witness:
  "(\<exists>c. main_issues ideal_backend (fresh all_ones) c \<and> kind c = Record_Scalar_Output \<and>
        kind c \<in> {Apply_H, Measure_And_Reset, Read_Bit, Record_Scalar_Output}) \<and>
   (\<exists>c. main_issues ideal_backend (fresh all_ones) c \<and> kind c = Apply_H) \<and>
   (\<exists>c. main_issues ideal_backend (fresh all_ones) c \<and> kind c = Measure_And_Reset) \<and>
   (\<exists>c. main_issues ideal_backend (fresh all_ones) c \<and> kind c = Read_Bit)"
proof -
  note th = entry_point_calls [of ideal_backend "fresh all_ones"]
  note only = th [THEN conjunct1]
  note each = th [THEN conjunct2, THEN conjunct1]
  from each [rule_format, of Record_Scalar_Output] obtain c where
    c: "main_issues ideal_backend (fresh all_ones) c" "kind c = Record_Scalar_Output" by auto
  from only [rule_format, OF c(1)] c
  have 1: "\<exists>c. main_issues ideal_backend (fresh all_ones) c \<and> kind c = Record_Scalar_Output \<and>
        kind c \<in> {Apply_H, Measure_And_Reset, Read_Bit, Record_Scalar_Output}"
    by (intro exI [of _ c] conjI)
  from each [rule_format, of Apply_H]
  have 2: "\<exists>c. main_issues ideal_backend (fresh all_ones) c \<and> kind c = Apply_H" by simp
  from each [rule_format, of Measure_And_Reset]
  have 3: "\<exists>c. main_issues ideal_backend (fresh all_ones) c \<and> kind c = Measure_And_Reset"
    by simp
  from each [rule_format, of Read_Bit]
  have 4: "\<exists>c. main_issues ideal_backend (fresh all_ones) c \<and> kind c = Read_Bit" by simp
  from 1 2 3 4 show ?thesis by (intro conjI)
qed

section \<open>Determinism relative to the backend\<close>

lemma returned_record_calls: "returned record_calls = []"
  by (simp add: record_calls_def qubits_def)

lemma returned_attempts_calls:
  "\<forall>ms\<in>set mss. length ms = 9 \<Longrightarrow> returned (concat (map attempt_calls mss)) = concat mss"
  by (induction mss) (simp_all add: returned_append returned_attempt_calls)

lemma chunks_eq:
  "\<forall>x\<in>set xs. length x = 9 \<Longrightarrow> \<forall>y\<in>set ys. length y = 9 \<Longrightarrow> concat xs = concat ys \<Longrightarrow>
   xs = ys"
proof (induction xs arbitrary: ys)
  case Nil
  show ?case
  proof (cases ys)
    case Nil
    then show ?thesis by simp
  next
    case (Cons y ys')
    with Nil.prems have "length y = 9" "y = []" by simp_all
    then show ?thesis by simp
  qed
next
  case (Cons x xs)
  from Cons.prems(1) have lx: "length x = 9" by simp
  show ?case
  proof (cases ys)
    case Nil
    with Cons.prems(3) have "x = []" by simp
    with lx show ?thesis by simp
  next
    case (Cons y ys')
    with Cons.prems(2) have ly: "length y = 9" by simp
    from Cons.prems(3) have "x @ concat xs = y @ concat ys'" by (simp add: Cons)
    with lx ly have xy: "x = y" and rest: "concat xs = concat ys'" by simp_all
    from Cons.prems(1) have 1: "\<forall>x\<in>set xs. length x = 9" by simp
    from Cons.prems(2) have 2: "\<forall>y\<in>set ys'. length y = 9" by (simp add: Cons)
    from Cons.IH [OF 1 2 rest] xy show ?thesis by (simp add: Cons)
  qed
qed

lemma same_reads_same_attempts:
  assumes "returned (issued s1 (snd (attempts B1 k (0, s1)))) =
           returned (issued s2 (snd (attempts B2 k (0, s2))))"
  shows "issued s1 (snd (attempts B1 k (0, s1))) = issued s2 (snd (attempts B2 k (0, s2))) \<and>
         (\<forall>j\<le>k. fst (attempts B1 j (0, s1)) = fst (attempts B2 j (0, s2)))"
proof -
  from attempts_sem [of k B1 0 s1] obtain mss1 where m1: "length mss1 = k"
    "\<forall>ms\<in>set mss1. length ms = 9"
    "trace (snd (attempts B1 k (0, s1))) = trace s1 @ concat (map attempt_calls mss1)"
    "\<forall>j<k. fst (attempts B1 (Suc j) (0, s1)) = accumulate (mss1 ! j)" by blast
  from attempts_sem [of k B2 0 s2] obtain mss2 where m2: "length mss2 = k"
    "\<forall>ms\<in>set mss2. length ms = 9"
    "trace (snd (attempts B2 k (0, s2))) = trace s2 @ concat (map attempt_calls mss2)"
    "\<forall>j<k. fst (attempts B2 (Suc j) (0, s2)) = accumulate (mss2 ! j)" by blast
  note i1 = issued_append [OF m1(3)] and i2 = issued_append [OF m2(3)]
  from assms have "concat mss1 = concat mss2"
    by (simp only: i1 i2 returned_attempts_calls [OF m1(2)] returned_attempts_calls [OF m2(2)])
  from chunks_eq [OF m1(2) m2(2) this] have eq: "mss1 = mss2" .
  have "\<forall>j\<le>k. fst (attempts B1 j (0, s1)) = fst (attempts B2 j (0, s2))"
  proof (intro allI impI)
    fix j assume j: "j \<le> k"
    show "fst (attempts B1 j (0, s1)) = fst (attempts B2 j (0, s2))"
    proof (cases j)
      case 0
      then show ?thesis by simp
    next
      case (Suc i)
      with j have "i < k" by simp
      with m1(4) m2(4) show ?thesis unfolding Suc eq by (simp del: attempts.simps)
    qed
  qed
  then show ?thesis by (simp only: i1 i2 eq simp_thms)
qed

lemma run_issued:
  assumes "random_numbers_over_500 B s = Some s'"
  shows "\<exists>mss. (\<forall>ms\<in>set mss. length ms = 9) \<and>
    issued s s' = concat (map attempt_calls mss) @ record_calls"
proof -
  from run_Some [OF assms] obtain k where
    s': "s' = random_numbers_over_500_for B 8 (snd (attempts B k (0, s)))" by blast
  from attempts_sem [of k B 0 s] obtain mss where mss: "\<forall>ms\<in>set mss. length ms = 9"
    "trace (snd (attempts B k (0, s))) = trace s @ concat (map attempt_calls mss)" by blast
  have "trace s' = trace s @ concat (map attempt_calls mss) @ record_calls"
    by (simp only: s' random_numbers_over_500_for_trace mss(2) append_assoc)
  from issued_append [OF this] mss(1) show ?thesis by blast
qed

lemma same_reads_same_run:
  assumes r1: "random_numbers_over_500 B1 s1 = Some s1'"
    and r2: "random_numbers_over_500 B2 s2 = Some s2'"
    and reads: "returned (issued s1 s1') = returned (issued s2 s2')"
  shows "issued s1 s1' = issued s2 s2'"
proof -
  from run_issued [OF r1] obtain mss1 where m1: "\<forall>ms\<in>set mss1. length ms = 9"
    "issued s1 s1' = concat (map attempt_calls mss1) @ record_calls" by blast
  from run_issued [OF r2] obtain mss2 where m2: "\<forall>ms\<in>set mss2. length ms = 9"
    "issued s2 s2' = concat (map attempt_calls mss2) @ record_calls" by blast
  from reads have "concat mss1 = concat mss2"
    by (simp add: m1(2) m2(2) returned_append returned_record_calls
        returned_attempts_calls [OF m1(1)] returned_attempts_calls [OF m2(1)])
  from chunks_eq [OF m1(1) m2(1) this] show ?thesis by (simp only: m1(2) m2(2))
qed


lemma same_reads_same_records:
  assumes r1: "random_numbers_over_500 ideal_backend t1 = Some t1'"
    and r2: "random_numbers_over_500 ideal_backend t2 = Some t2'"
    and reads: "returned (issued t1 t1') = returned (issued t2 t2')"
  shows "recorded t1 t1' = recorded t2 t2'"
proof -
  let ?w1 = "\<lambda>j. window (bst t1) (9 * j)" and ?w2 = "\<lambda>j. window (bst t2) (9 * j)"
  from ideal_run_Some [OF r1] obtain n1 where n1:
    "issued t1 t1' = concat (map attempt_calls (map ?w1 [0..<Suc n1])) @ record_calls"
    "recorded t1 t1' = map2 (\<lambda>i v. Result_entry (to_voidp i) 0 v) (rev qubits) (rev (?w1 n1))"
    by blast
  from ideal_run_Some [OF r2] obtain n2 where n2:
    "issued t2 t2' = concat (map attempt_calls (map ?w2 [0..<Suc n2])) @ record_calls"
    "recorded t2 t2' = map2 (\<lambda>i v. Result_entry (to_voidp i) 0 v) (rev qubits) (rev (?w2 n2))"
    by blast
  have l1: "\<forall>ms\<in>set (map ?w1 [0..<Suc n1]). length ms = 9"
    and l2: "\<forall>ms\<in>set (map ?w2 [0..<Suc n2]). length ms = 9"
    by (simp_all add: length_window)
  from reads have "concat (map ?w1 [0..<Suc n1]) = concat (map ?w2 [0..<Suc n2])"
    by (simp only: n1(1) n2(1) returned_append returned_record_calls append_Nil2
        returned_attempts_calls [OF l1] returned_attempts_calls [OF l2])
  from chunks_eq [OF l1 l2 this] have eq: "map ?w1 [0..<Suc n1] = map ?w2 [0..<Suc n2]" .
  then have "length (map ?w1 [0..<Suc n1]) = length (map ?w2 [0..<Suc n2])" by (rule arg_cong)
  then have n: "n1 = n2" by simp
  from eq have "map ?w1 [0..<Suc n1] ! n1 = map ?w2 [0..<Suc n2] ! n1" by (rule arg_cong)
  then have "?w1 n1 = ?w2 n2" unfolding n by (simp add: nth_append)
  then show ?thesis by (simp only: n1(2) n2(2))
qed

text \<open>
  C10. The program is deterministic relative to the values that read-bit returns. For
  two runs, on any two backends: if the reads of their first \<open>k\<close> iterations returned
  the same values, the two runs issued the same calls in these iterations and measured
  the same accumulators, so they leave the loop at the same iteration; if both runs of
  \<^verbatim>\<open>ENTRYPOINT__main\<close> return and their reads returned the same values, they issued the
  same calls, the record calls among them; and on two backends of the contract the
  entries recorded are the same too.
\<close>

theorem deterministic_relative_to_reads:
  "(\<forall>k. returned (issued s1 (snd (attempts B1 k (0, s1)))) =
          returned (issued s2 (snd (attempts B2 k (0, s2)))) \<longrightarrow>
        issued s1 (snd (attempts B1 k (0, s1))) = issued s2 (snd (attempts B2 k (0, s2))) \<and>
        (\<forall>j\<le>k. fst (attempts B1 j (0, s1)) = fst (attempts B2 j (0, s2)))) \<and>
   (\<forall>s1' s2'. ENTRYPOINT__main B1 s1 = Some s1' \<and> ENTRYPOINT__main B2 s2 = Some s2' \<and>
        returned (issued s1 s1') = returned (issued s2 s2') \<longrightarrow>
        issued s1 s1' = issued s2 s2') \<and>
   (\<forall>t1' t2'. ENTRYPOINT__main ideal_backend t1 = Some t1' \<and>
        ENTRYPOINT__main ideal_backend t2 = Some t2' \<and>
        returned (issued t1 t1') = returned (issued t2 t2') \<longrightarrow>
        recorded t1 t1' = recorded t2 t2')"
proof -
  have prefixes: "\<forall>k. returned (issued s1 (snd (attempts B1 k (0, s1)))) =
          returned (issued s2 (snd (attempts B2 k (0, s2)))) \<longrightarrow>
        issued s1 (snd (attempts B1 k (0, s1))) = issued s2 (snd (attempts B2 k (0, s2))) \<and>
        (\<forall>j\<le>k. fst (attempts B1 j (0, s1)) = fst (attempts B2 j (0, s2)))"
    by (intro allI impI) (rule same_reads_same_attempts)
  have runs: "\<forall>s1' s2'. ENTRYPOINT__main B1 s1 = Some s1' \<and> ENTRYPOINT__main B2 s2 = Some s2' \<and>
        returned (issued s1 s1') = returned (issued s2 s2') \<longrightarrow>
        issued s1 s1' = issued s2 s2'"
  proof (intro allI impI)
    fix s1' s2'
    assume "ENTRYPOINT__main B1 s1 = Some s1' \<and> ENTRYPOINT__main B2 s2 = Some s2' \<and>
        returned (issued s1 s1') = returned (issued s2 s2')"
    then have "random_numbers_over_500 B1 s1 = Some s1'"
      "random_numbers_over_500 B2 s2 = Some s2'"
      "returned (issued s1 s1') = returned (issued s2 s2')"
      by (simp_all add: ENTRYPOINT__main_def)
    then show "issued s1 s1' = issued s2 s2'" by (rule same_reads_same_run)
  qed
  have records: "\<forall>t1' t2'. ENTRYPOINT__main ideal_backend t1 = Some t1' \<and>
        ENTRYPOINT__main ideal_backend t2 = Some t2' \<and>
        returned (issued t1 t1') = returned (issued t2 t2') \<longrightarrow>
        recorded t1 t1' = recorded t2 t2'"
  proof (intro allI impI)
    fix t1' t2'
    assume "ENTRYPOINT__main ideal_backend t1 = Some t1' \<and>
        ENTRYPOINT__main ideal_backend t2 = Some t2' \<and>
        returned (issued t1 t1') = returned (issued t2 t2')"
    then have "random_numbers_over_500 ideal_backend t1 = Some t1'"
      "random_numbers_over_500 ideal_backend t2 = Some t2'"
      "returned (issued t1 t1') = returned (issued t2 t2')"
      by (simp_all add: ENTRYPOINT__main_def)
    then show "recorded t1 t1' = recorded t2 t2'" by (rule same_reads_same_records)
  qed
  show ?thesis by (rule conjI [OF prefixes conjI [OF runs records]])
qed

text \<open>The run on the stateless backend: the first attempt measures 511.\<close>

lemma always_one_attempt:
  "attempt always_one s =
     (511, \<lparr>trace = trace s @ attempt_calls [1, 1, 1, 1, 1, 1, 1, 1, 1], bst = bst s\<rparr>)"
proof -
  have h: "\<And>q s. H always_one q s = \<lparr>trace = trace s @ [Call_h (to_voidp q)], bst = bst s\<rparr>"
    by (simp add: H_def quantum_qis_h_body_def always_one_def)
  have m: "\<And>q r s. MResetZ always_one q r s =
      (1, \<lparr>trace = trace s @ [Call_mresetz (to_voidp q) (to_voidp r),
                                 Call_read_result (to_voidp r) 1], bst = bst s\<rparr>)"
    by (simp add: MResetZ_def quantum_qis_mresetz_body_def quantum_qis_read_result_body_def
        always_one_def)
  show ?thesis
    by (simp add: attempt_def make_random_state_unroll h measure_as_int_def
        measure_as_int_for.simps signed_cmp m attempt_calls_def prepare_calls_def
        measure_calls_def qubits_def)
qed

lemma run_always_one:
  "\<exists>s'. random_numbers_over_500 always_one \<lparr>trace = [], bst = ()\<rparr> = Some s' \<and>
     trace s' = attempt_calls [1, 1, 1, 1, 1, 1, 1, 1, 1] @ record_calls"
proof -
  let ?s = "\<lparr>trace = [], bst = ()\<rparr>"
  have "\<forall>j<1. fst (attempts always_one j (0, ?s)) <s 500" by (simp add: signed_cmp)
  moreover have "500 \<le>s fst (attempts always_one 1 (0, ?s))"
    by (simp add: always_one_attempt signed_cmp)
  ultimately have "random_numbers_over_500 always_one ?s =
      Some (random_numbers_over_500_for always_one 8 (snd (attempts always_one 1 (0, ?s))))"
    by (rule run_first_accept)
  moreover have "trace (random_numbers_over_500_for always_one 8
      (snd (attempts always_one 1 (0, ?s)))) =
      attempt_calls [1, 1, 1, 1, 1, 1, 1, 1, 1] @ record_calls"
    by (simp add: random_numbers_over_500_for_trace always_one_attempt)
  ultimately show ?thesis by blast
qed

text \<open>
  The theorem at two runs on different backends, the all-ones backend of the contract
  and the stateless backend whose reads return 1: both return, their reads returned the
  same nine values, and by the theorem they issued the same calls.
\<close>

theorem deterministic_relative_to_reads_witness:
  "\<exists>s1' s2'. ENTRYPOINT__main ideal_backend (fresh all_ones) = Some s1' \<and>
     ENTRYPOINT__main always_one \<lparr>trace = [], bst = ()\<rparr> = Some s2' \<and>
     returned (issued (fresh all_ones) s1') = [1, 1, 1, 1, 1, 1, 1, 1, 1] \<and>
     returned (issued \<lparr>trace = [], bst = ()\<rparr> s2') = [1, 1, 1, 1, 1, 1, 1, 1, 1] \<and>
     issued (fresh all_ones) s1' = issued \<lparr>trace = [], bst = ()\<rparr> s2'"
proof -
  let ?s1 = "fresh all_ones" and ?s2 = "\<lparr>trace = [], bst = ()\<rparr>"
  from run_all_ones obtain s1' where
    r1: "random_numbers_over_500 ideal_backend ?s1 = Some s1'" and
    t1: "trace s1' = attempt_calls [1, 1, 1, 1, 1, 1, 1, 1, 1] @ record_calls" by blast
  from run_always_one obtain s2' where
    r2: "random_numbers_over_500 always_one ?s2 = Some s2'" and
    t2: "trace s2' = attempt_calls [1, 1, 1, 1, 1, 1, 1, 1, 1] @ record_calls" by blast
  have i1: "issued ?s1 s1' = attempt_calls [1, 1, 1, 1, 1, 1, 1, 1, 1] @ record_calls"
    by (simp add: issued_def t1 fresh_def)
  have i2: "issued ?s2 s2' = attempt_calls [1, 1, 1, 1, 1, 1, 1, 1, 1] @ record_calls"
    by (simp add: issued_def t2)
  have v1: "returned (issued ?s1 s1') = [1, 1, 1, 1, 1, 1, 1, 1, 1]"
    by (simp add: i1 returned_append returned_attempt_calls returned_record_calls)
  have v2: "returned (issued ?s2 s2') = [1, 1, 1, 1, 1, 1, 1, 1, 1]"
    by (simp add: i2 returned_append returned_attempt_calls returned_record_calls)
  have m1: "ENTRYPOINT__main ideal_backend ?s1 = Some s1'"
    and m2: "ENTRYPOINT__main always_one ?s2 = Some s2'"
    using r1 r2 by (simp_all add: ENTRYPOINT__main_def)
  note th = deterministic_relative_to_reads [of ?s1 ideal_backend ?s2 always_one,
      THEN conjunct2, THEN conjunct1, rule_format, of s1' s2']
  have "issued ?s1 s1' = issued ?s2 s2'"
    by (rule th) (simp only: m1 m2 v1 v2 simp_thms)
  with m1 m2 v1 v2 show ?thesis by (intro exI [of _ s1'] exI [of _ s2'] conjI)
qed

end
